theory Spec2Isabelle
  imports Main
begin

section \<open>Settings used by the board engine (settings.py)\<close>

datatype CellState = HIDDEN | REVEALED | FLAGGED

definition MINE_VALUE :: int where
  "MINE_VALUE = -1"

definition GRID_ROWS :: int where
  "GRID_ROWS = 16"

definition GRID_COLS :: int where
  "GRID_COLS = 16"

definition NUM_MINES :: int where
  "NUM_MINES = 40"

definition CELL_SIZE :: int where
  "CELL_SIZE = min (600 div GRID_COLS) (600 div GRID_ROWS)"

section \<open>Python values: exceptions, list indexing, range\<close>

datatype error = IndexError | ValueError | ZeroDivisionError

text \<open>
  Python list indexing: an index \<open>i\<close> with \<open>0 \<le> i < n\<close> addresses position \<open>i\<close>, an index
  with \<open>-n \<le> i < 0\<close> addresses position \<open>n + i\<close>, every other index raises IndexError.
\<close>

definition py_index :: "nat \<Rightarrow> int \<Rightarrow> error + nat" where
  "py_index n i =
     (if 0 \<le> i \<and> i < int n then Inr (nat i)
      else if i < 0 \<and> - int n \<le> i then Inr (nat (int n + i))
      else Inl IndexError)"

definition getitem :: "'a list \<Rightarrow> int \<Rightarrow> error + 'a" where
  "getitem xs i = (case py_index (length xs) i of Inl e \<Rightarrow> Inl e | Inr k \<Rightarrow> Inr (xs ! k))"

text \<open>\<open>xss[r][c]\<close>\<close>

definition getitem2 :: "'a list list \<Rightarrow> int \<Rightarrow> int \<Rightarrow> error + 'a" where
  "getitem2 xss r c = (case getitem xss r of Inl e \<Rightarrow> Inl e | Inr row \<Rightarrow> getitem row c)"

text \<open>\<open>xss[r][c] = v\<close>; the rows of a grid are separate list objects, so only one row changes.\<close>

definition setitem2 :: "'a list list \<Rightarrow> int \<Rightarrow> int \<Rightarrow> 'a \<Rightarrow> error + 'a list list" where
  "setitem2 xss r c v =
     (case py_index (length xss) r of
        Inl e \<Rightarrow> Inl e
      | Inr k \<Rightarrow>
          (case py_index (length (xss ! k)) c of
             Inl e \<Rightarrow> Inl e
           | Inr j \<Rightarrow> Inr (xss[k := (xss ! k)[j := v]])))"

text \<open>\<open>range(lo, hi)\<close>\<close>

definition py_range :: "int \<Rightarrow> int \<Rightarrow> int list" where
  "py_range lo hi = [lo..hi - 1]"

text \<open>A \<open>for\<close> loop whose body may raise: the first exception ends the loop.\<close>

fun foldM :: "('a \<Rightarrow> 's \<Rightarrow> error + 's) \<Rightarrow> 'a list \<Rightarrow> 's \<Rightarrow> error + 's" where
  "foldM f [] s = Inr s"
| "foldM f (x # xs) s = (case f x s of Inl e \<Rightarrow> Inl e | Inr s' \<Rightarrow> foldM f xs s')"

section \<open>The board (board.py, class Board)\<close>

text \<open>
  The fields of \<open>Board\<close> that the game logic reads or writes. \<open>board_pixel_width\<close> and
  \<open>board_pixel_height\<close> are only read by \<open>draw\<close> and are left out.
\<close>

record board =
  rows :: int
  cols :: int
  mines :: int
  grid :: "int list list"
  cell_states :: "CellState list list"
  flags_placed :: int
  mines_location :: "(int \<times> int) set"
  first_click :: bool
  game_over :: bool
  game_won :: bool
  cell_size :: int

text \<open>\<open>Board.__init__\<close>\<close>

definition Board_init :: "int \<Rightarrow> int \<Rightarrow> int \<Rightarrow> board" where
  "Board_init r c m =
     \<lparr>rows = r, cols = c, mines = m,
      grid = map (\<lambda>_. map (\<lambda>_. 0) (py_range 0 c)) (py_range 0 r),
      cell_states = map (\<lambda>_. map (\<lambda>_. HIDDEN) (py_range 0 c)) (py_range 0 r),
      flags_placed = 0, mines_location = {}, first_click = True,
      game_over = False, game_won = False, cell_size = CELL_SIZE\<rparr>"

text \<open>\<open>Board.reset\<close>: re-reads the grid size and mine count from the settings.\<close>

definition reset :: "board \<Rightarrow> board" where
  "reset b =
     (let b1 = b\<lparr>rows := GRID_ROWS, cols := GRID_COLS, mines := NUM_MINES\<rparr>
      in b1\<lparr>grid := map (\<lambda>_. map (\<lambda>_. 0) (py_range 0 (cols b1))) (py_range 0 (rows b1)),
            cell_states := map (\<lambda>_. map (\<lambda>_. HIDDEN) (py_range 0 (cols b1))) (py_range 0 (rows b1)),
            flags_placed := 0, mines_location := {}, first_click := True,
            game_over := False, game_won := False\<rparr>)"

text \<open>The test \<open>0 <= nr < self.rows and 0 <= nc < self.cols\<close>.\<close>

definition in_bounds :: "board \<Rightarrow> int \<Rightarrow> int \<Rightarrow> bool" where
  "in_bounds b nr nc \<longleftrightarrow> 0 \<le> nr \<and> nr < rows b \<and> 0 \<le> nc \<and> nc < cols b"

text \<open>The cells visited by \<open>for r in range(self.rows): for c in range(self.cols)\<close>, in order.\<close>

definition all_cells :: "board \<Rightarrow> (int \<times> int) list" where
  "all_cells b = [(r, c). r \<leftarrow> py_range 0 (rows b), c \<leftarrow> py_range 0 (cols b)]"

text \<open>The pairs of the two nested \<open>range(-1, 2)\<close> loops, in order.\<close>

definition offsets :: "(int \<times> int) list" where
  "offsets = [(i, j). i \<leftarrow> py_range (-1) 2, j \<leftarrow> py_range (-1) 2]"

subsection \<open>\<open>_place_mines\<close>\<close>

definition safe_zone :: "board \<Rightarrow> int \<Rightarrow> int \<Rightarrow> (int \<times> int) set" where
  "safe_zone b first_click_row first_click_col =
     set (filter (\<lambda>(nr, nc). in_bounds b nr nc)
            (map (\<lambda>(r_offset, c_offset). (first_click_row + r_offset, first_click_col + c_offset))
               offsets))"

text \<open>
  The \<open>while\<close> loop of \<open>_place_mines\<close>. The list \<open>samples\<close> holds the pairs
  \<open>(random.randint(0, rows - 1), random.randint(0, cols - 1))\<close> that the successive iterations
  draw; \<open>None\<close> means that the loop is still running when the list is used up.
  \<open>random.randint(0, n)\<close> raises ValueError when \<open>n < 0\<close>.
\<close>

fun place_loop ::
  "board \<Rightarrow> (int \<times> int) set \<Rightarrow> int \<Rightarrow> int \<Rightarrow> (int \<times> int) list \<Rightarrow> (error + board) option" where
  "place_loop b safe mines_to_place placed_mines [] =
     (if placed_mines < mines_to_place then
        (if rows b - 1 < 0 \<or> cols b - 1 < 0 then Some (Inl ValueError) else None)
      else Some (Inr b))"
| "place_loop b safe mines_to_place placed_mines ((row, col) # rest) =
     (if placed_mines < mines_to_place then
        (if rows b - 1 < 0 \<or> cols b - 1 < 0 then Some (Inl ValueError)
         else if (row, col) \<notin> mines_location b \<and> (row, col) \<notin> safe then
           (case setitem2 (grid b) row col MINE_VALUE of
              Inl e \<Rightarrow> Some (Inl e)
            | Inr g \<Rightarrow>
                place_loop (b\<lparr>mines_location := insert (row, col) (mines_location b), grid := g\<rparr>)
                  safe mines_to_place (placed_mines + 1) rest)
         else place_loop b safe mines_to_place placed_mines rest)
      else Some (Inr b))"

definition place_mines ::
  "board \<Rightarrow> int \<Rightarrow> int \<Rightarrow> (int \<times> int) list \<Rightarrow> (error + board) option" where
  "place_mines b first_click_row first_click_col samples =
     (let b0 = b\<lparr>mines_location := {}\<rparr>;
          safe = safe_zone b0 first_click_row first_click_col;
          max_possible_mines = rows b0 * cols b0 - int (card safe);
          mines_to_place = min (mines b0) max_possible_mines
      in case place_loop b0 safe mines_to_place 0 samples of
           None \<Rightarrow> None
         | Some (Inl e) \<Rightarrow> Some (Inl e)
         | Some (Inr b1) \<Rightarrow> Some (Inr (b1\<lparr>mines := mines_to_place\<rparr>)))"

subsection \<open>\<open>_calculate_adjacent_mines\<close>\<close>

text \<open>The two inner loops: one step for the offset \<open>(i, j)\<close>, with the running \<open>count\<close>.\<close>

definition count_step :: "board \<Rightarrow> int \<Rightarrow> int \<Rightarrow> int \<times> int \<Rightarrow> int \<Rightarrow> error + int" where
  "count_step b r c = (\<lambda>(i, j) count.
     if i = 0 \<and> j = 0 then Inr count
     else let nr = r + i; nc = c + j in
       if in_bounds b nr nc then
         (case getitem2 (grid b) nr nc of
            Inl e \<Rightarrow> Inl e
          | Inr v \<Rightarrow> Inr (if v = MINE_VALUE then count + 1 else count))
       else Inr count)"

text \<open>The body of the two outer loops for the cell \<open>(r, c)\<close>.\<close>

definition calculate_cell :: "int \<times> int \<Rightarrow> board \<Rightarrow> error + board" where
  "calculate_cell = (\<lambda>(r, c) b.
     case getitem2 (grid b) r c of
       Inl e \<Rightarrow> Inl e
     | Inr v \<Rightarrow>
         if v \<noteq> MINE_VALUE then
           (case foldM (count_step b r c) offsets 0 of
              Inl e \<Rightarrow> Inl e
            | Inr count \<Rightarrow>
                (case setitem2 (grid b) r c count of
                   Inl e \<Rightarrow> Inl e
                 | Inr g \<Rightarrow> Inr (b\<lparr>grid := g\<rparr>)))
         else Inr b)"

definition calculate_adjacent_mines :: "board \<Rightarrow> error + board" where
  "calculate_adjacent_mines b = foldM calculate_cell (all_cells b) b"

subsection \<open>\<open>_reveal_all_mines\<close>\<close>

definition reveal_mine_cell :: "int \<times> int \<Rightarrow> board \<Rightarrow> error + board" where
  "reveal_mine_cell = (\<lambda>(r, c) b.
     case getitem2 (grid b) r c of
       Inl e \<Rightarrow> Inl e
     | Inr v \<Rightarrow>
         (case getitem2 (cell_states b) r c of
            Inl e \<Rightarrow> Inl e
          | Inr s \<Rightarrow>
              if v = MINE_VALUE \<and> s \<noteq> FLAGGED then
                (case setitem2 (cell_states b) r c REVEALED of
                   Inl e \<Rightarrow> Inl e
                 | Inr cs \<Rightarrow> Inr (b\<lparr>cell_states := cs\<rparr>))
              else if v \<noteq> MINE_VALUE \<and> s = FLAGGED then Inr b
              else Inr b))"

definition reveal_all_mines :: "board \<Rightarrow> error + board" where
  "reveal_all_mines b = foldM reveal_mine_cell (all_cells b) b"

subsection \<open>\<open>reveal\<close>\<close>

text \<open>
  The neighbour loop of \<open>reveal\<close>; \<open>rec\<close> is the recursive call \<open>self.reveal\<close>, which works on
  the board as the earlier iterations left it.
\<close>

fun visit_neighbours ::
  "(board \<Rightarrow> int \<Rightarrow> int \<Rightarrow> (error + board) option) \<Rightarrow> int \<Rightarrow> int \<Rightarrow> (int \<times> int) list \<Rightarrow> board
     \<Rightarrow> (error + board) option" where
  "visit_neighbours rec row col [] b = Some (Inr b)"
| "visit_neighbours rec row col ((i, j) # rest) b =
     (if i = 0 \<and> j = 0 then visit_neighbours rec row col rest b
      else let nr = row + i; nc = col + j in
        if in_bounds b nr nc then
          (case getitem2 (cell_states b) nr nc of
             Inl e \<Rightarrow> Some (Inl e)
           | Inr s \<Rightarrow>
               if s = HIDDEN then
                 (case rec b nr nc of
                    None \<Rightarrow> None
                  | Some (Inl e) \<Rightarrow> Some (Inl e)
                  | Some (Inr b') \<Rightarrow> visit_neighbours rec row col rest b')
               else visit_neighbours rec row col rest b)
        else visit_neighbours rec row col rest b)"

text \<open>
  \<open>reveal\<close> is recursive through the board it mutates. The first argument is the number of
  stack frames that the call may use (Python's recursion limit); \<open>None\<close> means that this
  budget did not suffice.
\<close>

primrec reveal :: "nat \<Rightarrow> board \<Rightarrow> int \<Rightarrow> int \<Rightarrow> (error + board) option" where
  "reveal 0 b row col = None"
| "reveal (Suc depth) b row col =
     (if game_over b then Some (Inr b)
      else case getitem2 (cell_states b) row col of
        Inl e \<Rightarrow> Some (Inl e)
      | Inr s \<Rightarrow>
          if s = REVEALED then Some (Inr b)
          else
            (case setitem2 (cell_states b) row col REVEALED of
               Inl e \<Rightarrow> Some (Inl e)
             | Inr cs \<Rightarrow>
                 (let b1 = b\<lparr>cell_states := cs\<rparr> in
                  case getitem2 (grid b1) row col of
                    Inl e \<Rightarrow> Some (Inl e)
                  | Inr v \<Rightarrow>
                      if v = MINE_VALUE then Some (reveal_all_mines (b1\<lparr>game_over := True\<rparr>))
                      else if v = 0 then visit_neighbours (reveal depth) row col offsets b1
                      else Some (Inr b1))))"

subsection \<open>\<open>toggle_flag\<close>\<close>

definition toggle_flag :: "board \<Rightarrow> int \<Rightarrow> int \<Rightarrow> error + board" where
  "toggle_flag b row col =
     (case getitem2 (cell_states b) row col of
        Inl e \<Rightarrow> Inl e
      | Inr s \<Rightarrow>
          if s = HIDDEN then
            (case setitem2 (cell_states b) row col FLAGGED of
               Inl e \<Rightarrow> Inl e
             | Inr cs \<Rightarrow> Inr (b\<lparr>cell_states := cs, flags_placed := flags_placed b + 1\<rparr>))
          else if s = FLAGGED then
            (case setitem2 (cell_states b) row col HIDDEN of
               Inl e \<Rightarrow> Inl e
             | Inr cs \<Rightarrow> Inr (b\<lparr>cell_states := cs, flags_placed := flags_placed b - 1\<rparr>))
          else Inr b)"

subsection \<open>\<open>_check_win\<close>\<close>

text \<open>The body of the counting loops for the cell \<open>(r, c)\<close>, with the running count.\<close>

definition count_revealed_cell :: "board \<Rightarrow> int \<times> int \<Rightarrow> int \<Rightarrow> error + int" where
  "count_revealed_cell b = (\<lambda>(r, c) revealed_count.
     case getitem2 (cell_states b) r c of
       Inl e \<Rightarrow> Inl e
     | Inr s \<Rightarrow>
         if s = REVEALED then
           (case getitem2 (grid b) r c of
              Inl e \<Rightarrow> Inl e
            | Inr v \<Rightarrow> Inr (if v \<noteq> MINE_VALUE then revealed_count + 1 else revealed_count))
         else Inr revealed_count)"

text \<open>The body of the flagging loops for the cell \<open>(r, c)\<close>.\<close>

definition flag_mine_cell :: "int \<times> int \<Rightarrow> board \<Rightarrow> error + board" where
  "flag_mine_cell = (\<lambda>(r, c) b.
     case getitem2 (grid b) r c of
       Inl e \<Rightarrow> Inl e
     | Inr v \<Rightarrow>
         if v = MINE_VALUE then
           (case getitem2 (cell_states b) r c of
              Inl e \<Rightarrow> Inl e
            | Inr s \<Rightarrow>
                if s = HIDDEN then
                  (case setitem2 (cell_states b) r c FLAGGED of
                     Inl e \<Rightarrow> Inl e
                   | Inr cs \<Rightarrow> Inr (b\<lparr>cell_states := cs, flags_placed := flags_placed b + 1\<rparr>))
                else Inr b)
         else Inr b)"

definition check_win :: "board \<Rightarrow> error + board" where
  "check_win b =
     (case foldM (count_revealed_cell b) (all_cells b) 0 of
        Inl e \<Rightarrow> Inl e
      | Inr revealed_count \<Rightarrow>
          (let total_non_mines = rows b * cols b - mines b in
           if revealed_count = total_non_mines then
             foldM flag_mine_cell (all_cells b) (b\<lparr>game_won := True, game_over := True\<rparr>)
           else Inr b))"

subsection \<open>\<open>handle_click\<close>\<close>

text \<open>The branch \<open>button == 1\<close>.\<close>

definition left_click ::
  "nat \<Rightarrow> (int \<times> int) list \<Rightarrow> board \<Rightarrow> int \<Rightarrow> int \<Rightarrow> (error + board) option" where
  "left_click depth samples b row col =
     (case (if first_click b then
              (case place_mines b row col samples of
                 None \<Rightarrow> None
               | Some (Inl e) \<Rightarrow> Some (Inl e)
               | Some (Inr b1) \<Rightarrow>
                   (case calculate_adjacent_mines b1 of
                      Inl e \<Rightarrow> Some (Inl e)
                    | Inr b2 \<Rightarrow> Some (Inr (b2\<lparr>first_click := False\<rparr>))))
            else Some (Inr b)) of
        None \<Rightarrow> None
      | Some (Inl e) \<Rightarrow> Some (Inl e)
      | Some (Inr b3) \<Rightarrow>
          (case getitem2 (cell_states b3) row col of
             Inl e \<Rightarrow> Some (Inl e)
           | Inr s \<Rightarrow> if s \<noteq> FLAGGED then reveal depth b3 row col else Some (Inr b3)))"

text \<open>The branch \<open>button == 3\<close>.\<close>

definition right_click :: "board \<Rightarrow> int \<Rightarrow> int \<Rightarrow> error + board" where
  "right_click b row col =
     (case getitem2 (cell_states b) row col of
        Inl e \<Rightarrow> Inl e
      | Inr s \<Rightarrow> if s \<noteq> REVEALED then toggle_flag b row col else Inr b)"

text \<open>
  \<open>board_x\<close> and \<open>board_y\<close> are the current \<open>settings.GAME_AREA_X\<close> and \<open>settings.GAME_AREA_Y\<close>;
  \<open>depth\<close> and \<open>samples\<close> are passed on to \<open>reveal\<close> and \<open>_place_mines\<close>.
\<close>

definition handle_click ::
  "nat \<Rightarrow> (int \<times> int) list \<Rightarrow> int \<Rightarrow> int \<Rightarrow> board \<Rightarrow> int \<times> int \<Rightarrow> int \<Rightarrow> (error + board) option" where
  "handle_click depth samples board_x board_y b mouse_pos button =
     (if game_over b \<or> game_won b then Some (Inr b)
      else if cell_size b = 0 then Some (Inl ZeroDivisionError)
      else
        (let col = (fst mouse_pos - board_x) div cell_size b;
             row = (snd mouse_pos - board_y) div cell_size b
         in if \<not> in_bounds b row col then Some (Inr b)
            else
              (case (if button = 1 then left_click depth samples b row col
                     else if button = 3 then Some (right_click b row col)
                     else Some (Inr b)) of
                 None \<Rightarrow> None
               | Some (Inl e) \<Rightarrow> Some (Inl e)
               | Some (Inr b1) \<Rightarrow>
                   if \<not> game_over b1 then Some (check_win b1) else Some (Inr b1))))"

section \<open>Notions used in the statements\<close>

text \<open>A grid of \<open>R\<close> rows with \<open>C\<close> cells each.\<close>

definition shape :: "'a list list \<Rightarrow> int \<Rightarrow> int \<Rightarrow> bool" where
  "shape xss R C \<longleftrightarrow> length xss = nat R \<and> list_all (\<lambda>row. length row = nat C) xss"

text \<open>
  The boards that \<open>__init__\<close> and \<open>reset\<close> build for a grid size that is not negative, and
  that the methods keep: both grids have \<open>rows\<close> rows of \<open>cols\<close> cells.
\<close>

definition wf_board :: "board \<Rightarrow> bool" where
  "wf_board b \<longleftrightarrow>
     0 \<le> rows b \<and> 0 \<le> cols b \<and>
     shape (grid b) (rows b) (cols b) \<and> shape (cell_states b) (rows b) (cols b)"

text \<open>The cell \<open>(r, c)\<close> of a grid, for a position inside it, and the grid with that cell replaced.\<close>

definition cell_at :: "'a list list \<Rightarrow> int \<Rightarrow> int \<Rightarrow> 'a" where
  "cell_at xss r c = xss ! nat r ! nat c"

definition cell_upd :: "'a list list \<Rightarrow> int \<Rightarrow> int \<Rightarrow> 'a \<Rightarrow> 'a list list" where
  "cell_upd xss r c v = xss[nat r := (xss ! nat r)[nat c := v]]"

text \<open>
  A lost game on a board of one row and four columns with its mine at \<open>(0, 2)\<close>: the first
  click was on \<open>(0, 0)\<close>, the second on the mine; the cell \<open>(0, 3)\<close> is still hidden.
\<close>

definition lost_board :: board where
  "lost_board =
     \<lparr>rows = 1, cols = 4, mines = 1, grid = [[0, 1, -1, 1]],
      cell_states = [[REVEALED, REVEALED, REVEALED, HIDDEN]],
      flags_placed = 0, mines_location = {(0, 2)}, first_click = False,
      game_over = True, game_won = False, cell_size = 37\<rparr>"

text \<open>Whether the cell \<open>(r, c)\<close> holds a mine, and its state.\<close>

definition is_mine :: "board \<Rightarrow> int \<Rightarrow> int \<Rightarrow> bool" where
  "is_mine b r c \<longleftrightarrow> cell_at (grid b) r c = MINE_VALUE"

definition state_of :: "board \<Rightarrow> int \<Rightarrow> int \<Rightarrow> CellState" where
  "state_of b r c = cell_at (cell_states b) r c"

text \<open>
  The number of \<open>REVEALED\<close> cells without a mine, of cells with a mine, and of \<open>HIDDEN\<close> cells
  with one.
\<close>

definition revealed_non_mines :: "board \<Rightarrow> nat" where
  "revealed_non_mines b =
     length (filter (\<lambda>(r, c). state_of b r c = REVEALED \<and> \<not> is_mine b r c) (all_cells b))"

definition mine_cells :: "board \<Rightarrow> nat" where
  "mine_cells b = length (filter (\<lambda>(r, c). is_mine b r c) (all_cells b))"

definition hidden_mines :: "board \<Rightarrow> nat" where
  "hidden_mines b =
     length (filter (\<lambda>(r, c). is_mine b r c \<and> state_of b r c = HIDDEN) (all_cells b))"

text \<open>The same game before the click on the mine, and with only the mine left to uncover.\<close>

definition mid_board :: board where
  "mid_board =
     \<lparr>rows = 1, cols = 4, mines = 1, grid = [[0, 1, -1, 1]],
      cell_states = [[REVEALED, REVEALED, HIDDEN, HIDDEN]],
      flags_placed = 0, mines_location = {(0, 2)}, first_click = False,
      game_over = False, game_won = False, cell_size = 37\<rparr>"

definition last_board :: board where
  "last_board =
     \<lparr>rows = 1, cols = 4, mines = 1, grid = [[0, 1, -1, 1]],
      cell_states = [[REVEALED, REVEALED, HIDDEN, REVEALED]],
      flags_placed = 0, mines_location = {(0, 2)}, first_click = False,
      game_over = False, game_won = False, cell_size = 37\<rparr>"

text \<open>The eight positions around \<open>(r, c)\<close>, and the number of those that lie in the grid and hold a mine.\<close>

definition neighbours8 :: "int \<Rightarrow> int \<Rightarrow> (int \<times> int) list" where
  "neighbours8 r c =
     [(r - 1, c - 1), (r - 1, c), (r - 1, c + 1), (r, c - 1), (r, c + 1),
      (r + 1, c - 1), (r + 1, c), (r + 1, c + 1)]"

definition adjacent_mines :: "board \<Rightarrow> int \<Rightarrow> int \<Rightarrow> nat" where
  "adjacent_mines b r c =
     length (filter (\<lambda>(nr, nc). in_bounds b nr nc \<and> is_mine b nr nc) (neighbours8 r c))"

text \<open>The number of cells that are not \<open>REVEALED\<close>.\<close>

definition unrevealed :: "board \<Rightarrow> nat" where
  "unrevealed b = length (filter (\<lambda>s. s \<noteq> REVEALED) (concat (cell_states b)))"

text \<open>The board of the example game after mine placement, before the counts are computed.\<close>

definition placed_board :: board where
  "placed_board =
     \<lparr>rows = 1, cols = 4, mines = 1, grid = [[0, 0, -1, 0]],
      cell_states = [[HIDDEN, HIDDEN, HIDDEN, HIDDEN]],
      flags_placed = 0, mines_location = {(0, 2)}, first_click = True,
      game_over = False, game_won = False, cell_size = 37\<rparr>"

text \<open>The number of \<open>FLAGGED\<close> cells.\<close>

definition flagged_cells :: "board \<Rightarrow> nat" where
  "flagged_cells b = length (filter (\<lambda>s. s = FLAGGED) (concat (cell_states b)))"

definition flags_ok :: "board \<Rightarrow> bool" where
  "flags_ok b \<longleftrightarrow> flags_placed b = int (flagged_cells b)"

text \<open>
  The boards that arise from a new board by the operations of the engine, where \<open>reveal\<close> is
  only called on a cell that is not \<open>FLAGGED\<close> (the test that \<open>handle_click\<close> makes before its
  own call).
\<close>

inductive reachable :: "board \<Rightarrow> bool" where
  new: "reachable (Board_init r c m)"
| click: "reachable b \<Longrightarrow>
    handle_click depth samples board_x board_y b mouse_pos button = Some (Inr b') \<Longrightarrow> reachable b'"
| uncover: "reachable b \<Longrightarrow> getitem2 (cell_states b) row col \<noteq> Inr FLAGGED \<Longrightarrow>
    reveal depth b row col = Some (Inr b') \<Longrightarrow> reachable b'"
| flag: "reachable b \<Longrightarrow> toggle_flag b row col = Inr b' \<Longrightarrow> reachable b'"
| win: "reachable b \<Longrightarrow> check_win b = Inr b' \<Longrightarrow> reachable b'"
| mines: "reachable b \<Longrightarrow> reveal_all_mines b = Inr b' \<Longrightarrow> reachable b'"
| again: "reachable b \<Longrightarrow> reachable (reset b)"

text \<open>What mine placement and the adjacency counts leave alone.\<close>

definition same_cells :: "board \<Rightarrow> board \<Rightarrow> bool" where
  "same_cells b b' \<longleftrightarrow>
     cell_states b' = cell_states b \<and> flags_placed b' = flags_placed b \<and>
     rows b' = rows b \<and> cols b' = cols b \<and> game_over b' = game_over b \<and>
     game_won b' = game_won b \<and> cell_size b' = cell_size b"

text \<open>
  \<open>uncovers b b'\<close>: the board \<open>b'\<close> is \<open>b\<close> with some \<open>HIDDEN\<close> cells turned to \<open>REVEALED\<close> and
  possibly \<open>game_over\<close> set; nothing else differs.
\<close>

definition uncovers :: "board \<Rightarrow> board \<Rightarrow> bool" where
  "uncovers b b' \<longleftrightarrow>
     (\<exists>cs go. b' = b\<lparr>cell_states := cs, game_over := go\<rparr> \<and> shape cs (rows b) (cols b) \<and>
        (game_over b \<longrightarrow> go) \<and>
        (\<forall>r c. in_bounds b r c \<longrightarrow>
           cell_at cs r c = state_of b r c \<or> (cell_at cs r c = REVEALED \<and> state_of b r c = HIDDEN)))"

text \<open>
  \<open>placement b0 safe N mls res\<close>: the result \<open>res\<close> of the placement loop is the board \<open>b0\<close> with
  \<open>N\<close> distinct mines, taken from \<open>mls\<close> and outside \<open>safe\<close>, written to \<open>mines_location\<close> and
  to the grid.
\<close>

definition placement :: "board \<Rightarrow> (int \<times> int) set \<Rightarrow> int \<Rightarrow> (int \<times> int) set \<Rightarrow> error + board \<Rightarrow> bool" where
  "placement b0 safe N mls res \<longleftrightarrow>
     (\<exists>g ml. res = Inr (b0\<lparr>grid := g, mines_location := ml\<rparr>) \<and>
        shape g (rows b0) (cols b0) \<and> finite ml \<and> int (card ml) = N \<and> ml \<inter> safe = {} \<and>
        ml \<subseteq> mls \<and>
        (\<forall>r c. in_bounds b0 r c \<longrightarrow>
           cell_at g r c = (if (r, c) \<in> ml then MINE_VALUE else cell_at (grid b0) r c)))"

text \<open>A new board of two rows and two columns whose cell \<open>(1, 1)\<close> has been flagged.\<close>

definition flagged_board :: board where
  "flagged_board =
     (Board_init 2 2 1)\<lparr>cell_states := [[HIDDEN, HIDDEN], [HIDDEN, FLAGGED]], flags_placed := 1\<rparr>"

text \<open>
  \<open>counts_ok\<close>: every cell without a mine holds the number of mines around it, as after
  \<open>_calculate_adjacent_mines\<close>. \<open>zero_safe\<close>: no cell with count 0 has a mine next to it.
\<close>

definition counts_ok :: "board \<Rightarrow> bool" where
  "counts_ok b \<longleftrightarrow>
     list_all (\<lambda>(r, c). is_mine b r c \<or> cell_at (grid b) r c = int (adjacent_mines b r c))
       (all_cells b)"

definition zero_safe :: "board \<Rightarrow> bool" where
  "zero_safe b \<longleftrightarrow>
     (\<forall>r c nr nc. in_bounds b r c \<and> cell_at (grid b) r c = 0 \<and> (nr, nc) \<in> set (neighbours8 r c) \<and>
        in_bounds b nr nc \<longrightarrow> \<not> is_mine b nr nc)"

text \<open>
  \<open>reached b row col r c\<close>: the cell \<open>(r, c)\<close> is \<open>(row, col)\<close> itself, or is reached from it by
  steps to one of the eight neighbours, each step leaving a cell with count 0 and entering a
  cell of the grid that is \<open>HIDDEN\<close> on \<open>b\<close>.
\<close>

inductive reached :: "board \<Rightarrow> int \<Rightarrow> int \<Rightarrow> int \<Rightarrow> int \<Rightarrow> bool"
  for b :: board and row :: int and col :: int where
  start: "reached b row col row col"
| step: "reached b row col r c \<Longrightarrow> cell_at (grid b) r c = 0 \<Longrightarrow> (nr, nc) \<in> set (neighbours8 r c) \<Longrightarrow>
    in_bounds b nr nc \<Longrightarrow> state_of b nr nc = HIDDEN \<Longrightarrow> reached b row col nr nc"

text \<open>
  \<open>closed_cells b b'\<close>: every cell with count 0 that has become \<open>REVEALED\<close> from \<open>b\<close> to \<open>b'\<close> has
  no \<open>HIDDEN\<close> neighbour on \<open>b'\<close>.
\<close>

definition closed_cells :: "board \<Rightarrow> board \<Rightarrow> bool" where
  "closed_cells b b' \<longleftrightarrow>
     (\<forall>r c nr nc. in_bounds b r c \<and> state_of b r c \<noteq> REVEALED \<and> state_of b' r c = REVEALED \<and>
        cell_at (grid b) r c = 0 \<and> (nr, nc) \<in> set (neighbours8 r c) \<and> in_bounds b nr nc \<longrightarrow>
        state_of b' nr nc \<noteq> HIDDEN)"

text \<open>
  A game on one row of five cells with its mine at \<open>(0, 4)\<close> and the cell \<open>(0, 1)\<close> flagged,
  as \<open>handle_click\<close> has it when it calls \<open>reveal\<close> for a first click on \<open>(0, 0)\<close>. And the
  example game of four cells before any cell is revealed.
\<close>

definition blocked_board :: board where
  "blocked_board =
     \<lparr>rows = 1, cols = 5, mines = 1, grid = [[0, 0, 0, 1, -1]],
      cell_states = [[HIDDEN, FLAGGED, HIDDEN, HIDDEN, HIDDEN]],
      flags_placed = 1, mines_location = {(0, 4)}, first_click = False,
      game_over = False, game_won = False, cell_size = 37\<rparr>"

definition open_board :: board where
  "open_board =
     \<lparr>rows = 1, cols = 4, mines = 1, grid = [[0, 1, -1, 1]],
      cell_states = [[HIDDEN, HIDDEN, HIDDEN, HIDDEN]],
      flags_placed = 0, mines_location = {(0, 2)}, first_click = False,
      game_over = False, game_won = False, cell_size = 37\<rparr>"

section \<open>Indexing inside a grid\<close>

lemmas eval_defs =
  Board_init_def py_range_def upto.simps CELL_SIZE_def GRID_ROWS_def GRID_COLS_def NUM_MINES_def
  MINE_VALUE_def in_bounds_def all_cells_def offsets_def
  py_index_def getitem_def getitem2_def setitem2_def
  shape_def wf_board_def cell_at_def cell_upd_def

lemma shape_length: "shape xss R C \<Longrightarrow> length xss = nat R"
  by (simp add: shape_def)

lemma shape_row: "shape xss R C \<Longrightarrow> 0 \<le> r \<Longrightarrow> r < R \<Longrightarrow> length (xss ! nat r) = nat C"
  by (simp add: shape_def list_all_length)

lemma getitem2_in:
  assumes "shape xss R C" "0 \<le> r" "r < R" "0 \<le> c" "c < C"
  shows "getitem2 xss r c = Inr (cell_at xss r c)"
proof -
  have "py_index (length xss) r = Inr (nat r)"
    using assms shape_length [OF assms(1)] by (simp add: py_index_def)
  moreover have "py_index (length (xss ! nat r)) c = Inr (nat c)"
    using assms shape_row [OF assms(1-3)] by (simp add: py_index_def)
  ultimately show ?thesis
    by (simp add: getitem2_def getitem_def cell_at_def)
qed

lemma setitem2_in:
  assumes "shape xss R C" "0 \<le> r" "r < R" "0 \<le> c" "c < C"
  shows "setitem2 xss r c v = Inr (cell_upd xss r c v)"
proof -
  have "py_index (length xss) r = Inr (nat r)"
    using assms shape_length [OF assms(1)] by (simp add: py_index_def)
  moreover have "py_index (length (xss ! nat r)) c = Inr (nat c)"
    using assms shape_row [OF assms(1-3)] by (simp add: py_index_def)
  ultimately show ?thesis
    by (simp add: setitem2_def cell_upd_def)
qed

lemma shape_cell_upd: "shape xss R C \<Longrightarrow> shape (cell_upd xss r c v) R C"
  by (cases "nat r < length xss")
    (auto simp: shape_def cell_upd_def list_all_length nth_list_update list_update_beyond)

lemma cell_at_cell_upd:
  assumes "shape xss R C" "0 \<le> r" "r < R" "0 \<le> c" "c < C" "0 \<le> r'" "0 \<le> c'"
  shows "cell_at (cell_upd xss r c v) r' c' = (if r' = r \<and> c' = c then v else cell_at xss r' c')"
proof -
  have lr: "nat r < length xss"
    using assms shape_length [OF assms(1)] by simp
  have lc: "nat c < length (xss ! nat r)"
    using assms shape_row [OF assms(1-3)] by simp
  have eqr: "nat r = nat r' \<longleftrightarrow> r' = r" and eqc: "nat c = nat c' \<longleftrightarrow> c' = c"
    using assms by auto
  show ?thesis
    using lr lc eqr eqc by (auto simp: cell_at_def cell_upd_def nth_list_update)
qed

lemma cell_upd_restore: "cell_at xss r c = s \<Longrightarrow> cell_upd (cell_upd xss r c v) r c s = xss"
  by (cases "nat r < length xss") (auto simp: cell_at_def cell_upd_def list_update_beyond)

lemma wf_board_bounds:
  assumes "wf_board b" "in_bounds b r c"
  shows "getitem2 (cell_states b) r c = Inr (cell_at (cell_states b) r c)"
    and "getitem2 (grid b) r c = Inr (cell_at (grid b) r c)"
    and "setitem2 (cell_states b) r c s = Inr (cell_upd (cell_states b) r c s)"
    and "setitem2 (grid b) r c v = Inr (cell_upd (grid b) r c v)"
  using assms
  by (simp_all add: wf_board_def in_bounds_def getitem2_in [where R = "rows b" and C = "cols b"]
      setitem2_in [where R = "rows b" and C = "cols b"])

section \<open>A finished game\<close>

text \<open>
  C1, as the code has it: when \<open>game_over\<close> is set, \<open>handle_click\<close> returns at once for
  every mouse position and button, and \<open>reveal\<close> returns at once for every coordinate (any
  recursion budget that allows the call itself); both leave the whole board as it was.
  \<open>toggle_flag\<close> has no such test of its own: it is \<open>handle_click\<close> that keeps it from
  running in a finished game.
\<close>

theorem game_over_no_effect:
  assumes "game_over b"
  shows "handle_click depth samples board_x board_y b mouse_pos button = Some (Inr b)
       \<and> reveal (Suc depth) b row col = Some (Inr b)"
  using assms by (simp add: handle_click_def)

theorem game_over_no_effect_witness:
  "game_over lost_board
   \<and> handle_click 3 [] 0 0 lost_board (120, 0) 3 = Some (Inr lost_board)
   \<and> reveal (Suc 3) lost_board 0 3 = Some (Inr lost_board)"
  using game_over_no_effect [where b = lost_board and depth = 3 and row = 0 and col = 3]
  by (simp add: lost_board_def)

text \<open>
  C1 as stated fails for \<open>toggle_flag\<close>: called on the hidden cell \<open>(0, 3)\<close> of the lost
  game it flags the cell and counts the flag.
\<close>

theorem toggle_flag_game_over_counterexample:
  "game_over lost_board
   \<and> toggle_flag lost_board 0 3 =
       Inr (lost_board\<lparr>cell_states := [[REVEALED, REVEALED, REVEALED, FLAGGED]], flags_placed := 1\<rparr>)
   \<and> toggle_flag lost_board 0 3 \<noteq> Inr lost_board"
  by (simp add: lost_board_def toggle_flag_def getitem2_def getitem_def setitem2_def py_index_def)

section \<open>Flagging\<close>

text \<open>
  C10: on a cell inside the grid that is not \<open>REVEALED\<close>, \<open>toggle_flag\<close> returns the board in
  which that cell has gone from \<open>HIDDEN\<close> to \<open>FLAGGED\<close> with \<open>flags_placed\<close> one higher, or from
  \<open>FLAGGED\<close> to \<open>HIDDEN\<close> with \<open>flags_placed\<close> one lower; every other cell and every other field
  is as before. A second \<open>toggle_flag\<close> on the same cell gives back exactly the board before
  the first call.
\<close>

theorem toggle_flag_twice:
  assumes "wf_board b" "in_bounds b row col" "cell_at (cell_states b) row col \<noteq> REVEALED"
  shows "\<exists>cs. toggle_flag b row col =
         Inr (b\<lparr>cell_states := cs,
                flags_placed := flags_placed b
                  + (if cell_at (cell_states b) row col = HIDDEN then 1 else - 1)\<rparr>)
     \<and> shape cs (rows b) (cols b)
     \<and> (\<forall>r c. in_bounds b r c \<longrightarrow>
          cell_at cs r c =
            (if r = row \<and> c = col
             then (if cell_at (cell_states b) row col = HIDDEN then FLAGGED else HIDDEN)
             else cell_at (cell_states b) r c))
     \<and> toggle_flag (b\<lparr>cell_states := cs,
                flags_placed := flags_placed b
                  + (if cell_at (cell_states b) row col = HIDDEN then 1 else - 1)\<rparr>) row col = Inr b"
proof -
  let ?cs = "cell_states b"
  have sh: "shape ?cs (rows b) (cols b)"
    using assms(1) by (simp add: wf_board_def)
  have rng: "0 \<le> row" "row < rows b" "0 \<le> col" "col < cols b"
    using assms(2) by (simp_all add: in_bounds_def)
  note get = getitem2_in [OF _ rng] and set = setitem2_in [OF _ rng]
  note at = cell_at_cell_upd [OF sh rng rng(1) rng(3)]
  have other: "cell_at (cell_upd ?cs row col v) r c = (if r = row \<and> c = col then v else cell_at ?cs r c)"
    if "in_bounds b r c" for r c v
  proof -
    from that have "0 \<le> r" "0 \<le> c" by (simp_all add: in_bounds_def)
    from cell_at_cell_upd [OF sh rng this] show ?thesis .
  qed
  show ?thesis
  proof (cases "cell_at ?cs row col")
    case HIDDEN
    let ?b1 = "b\<lparr>cell_states := cell_upd ?cs row col FLAGGED, flags_placed := flags_placed b + 1\<rparr>"
    have 1: "toggle_flag b row col = Inr ?b1"
      using HIDDEN by (simp add: toggle_flag_def get [OF sh] set [OF sh])
    have sh1: "shape (cell_upd ?cs row col FLAGGED) (rows b) (cols b)"
      using sh by (simp add: shape_cell_upd)
    have 2: "toggle_flag ?b1 row col = Inr b"
      using HIDDEN by (simp add: toggle_flag_def get [OF sh1] set [OF sh1] at cell_upd_restore)
    show ?thesis
      using HIDDEN 1 2 sh1 other
      by (intro exI [of _ "cell_upd ?cs row col FLAGGED"]) simp
  next
    case REVEALED
    with assms(3) show ?thesis by simp
  next
    case FLAGGED
    let ?b1 = "b\<lparr>cell_states := cell_upd ?cs row col HIDDEN, flags_placed := flags_placed b - 1\<rparr>"
    have 1: "toggle_flag b row col = Inr ?b1"
      using FLAGGED by (simp add: toggle_flag_def get [OF sh] set [OF sh])
    have sh1: "shape (cell_upd ?cs row col HIDDEN) (rows b) (cols b)"
      using sh by (simp add: shape_cell_upd)
    have 2: "toggle_flag ?b1 row col = Inr b"
      using FLAGGED by (simp add: toggle_flag_def get [OF sh1] set [OF sh1] at cell_upd_restore)
    show ?thesis
      using FLAGGED 1 2 sh1 other
      by (intro exI [of _ "cell_upd ?cs row col HIDDEN"]) simp
  qed
qed

theorem toggle_flag_twice_witness:
  "wf_board (Board_init 2 2 1) \<and> in_bounds (Board_init 2 2 1) 1 0
   \<and> cell_at (cell_states (Board_init 2 2 1)) 1 0 \<noteq> REVEALED
   \<and> (\<exists>cs. toggle_flag (Board_init 2 2 1) 1 0 =
         Inr ((Board_init 2 2 1)\<lparr>cell_states := cs,
                flags_placed := flags_placed (Board_init 2 2 1)
                  + (if cell_at (cell_states (Board_init 2 2 1)) 1 0 = HIDDEN then 1 else - 1)\<rparr>)
     \<and> shape cs (rows (Board_init 2 2 1)) (cols (Board_init 2 2 1))
     \<and> (\<forall>r c. in_bounds (Board_init 2 2 1) r c \<longrightarrow>
          cell_at cs r c =
            (if r = 1 \<and> c = 0
             then (if cell_at (cell_states (Board_init 2 2 1)) 1 0 = HIDDEN then FLAGGED else HIDDEN)
             else cell_at (cell_states (Board_init 2 2 1)) r c))
     \<and> toggle_flag ((Board_init 2 2 1)\<lparr>cell_states := cs,
                flags_placed := flags_placed (Board_init 2 2 1)
                  + (if cell_at (cell_states (Board_init 2 2 1)) 1 0 = HIDDEN then 1 else - 1)\<rparr>) 1 0
         = Inr (Board_init 2 2 1))
   \<and> toggle_flag (Board_init 2 2 1) 1 0 =
       Inr ((Board_init 2 2 1)\<lparr>cell_states := [[HIDDEN, HIDDEN], [FLAGGED, HIDDEN]], flags_placed := 1\<rparr>)
   \<and> toggle_flag ((Board_init 2 2 1)\<lparr>cell_states := [[HIDDEN, HIDDEN], [FLAGGED, HIDDEN]],
         flags_placed := 1\<rparr>) 1 0 = Inr (Board_init 2 2 1)"
proof -
  have h: "wf_board (Board_init 2 2 1)" "in_bounds (Board_init 2 2 1) 1 0"
    "cell_at (cell_states (Board_init 2 2 1)) 1 0 \<noteq> REVEALED"
    by (simp_all add: eval_defs)
  have run: "toggle_flag (Board_init 2 2 1) 1 0 =
       Inr ((Board_init 2 2 1)\<lparr>cell_states := [[HIDDEN, HIDDEN], [FLAGGED, HIDDEN]], flags_placed := 1\<rparr>)"
    "toggle_flag ((Board_init 2 2 1)\<lparr>cell_states := [[HIDDEN, HIDDEN], [FLAGGED, HIDDEN]],
         flags_placed := 1\<rparr>) 1 0 = Inr (Board_init 2 2 1)"
    by (simp_all add: toggle_flag_def eval_defs)
  from toggle_flag_twice [OF h] h run show ?thesis by blast
qed

section \<open>Loops over all cells\<close>

lemma foldM_prefix:
  assumes init: "P [] s"
    and step: "\<And>ys x zs t. xs = ys @ x # zs \<Longrightarrow> P ys t \<Longrightarrow> \<exists>t'. f x t = Inr t' \<and> P (ys @ [x]) t'"
  shows "\<exists>s'. foldM f xs s = Inr s' \<and> P xs s'"
proof -
  have gen: "xs = ys @ zs \<Longrightarrow> P ys t \<Longrightarrow> \<exists>s'. foldM f zs t = Inr s' \<and> P xs s'" for ys zs t
  proof (induction zs arbitrary: ys t)
    case Nil
    then show ?case by simp
  next
    case (Cons z zs)
    from step [OF Cons.prems(1) Cons.prems(2)]
    obtain t' where t': "f z t = Inr t'" "P (ys @ [z]) t'" by blast
    have "xs = (ys @ [z]) @ zs" using Cons.prems(1) by simp
    from Cons.IH [OF this t'(2)] t'(1) show ?case by simp
  qed
  from gen [of "[]" xs s] init show ?thesis by simp
qed

lemma set_all_cells: "set (all_cells b) = {(r, c). in_bounds b r c}"
  by (auto simp: all_cells_def py_range_def in_bounds_def)

lemma distinct_pairs: "distinct xs \<Longrightarrow> distinct ys \<Longrightarrow> distinct [(x, y). x \<leftarrow> xs, y \<leftarrow> ys]"
  by (induction xs) (auto simp: distinct_map inj_on_def)

lemma distinct_all_cells: "distinct (all_cells b)"
  unfolding all_cells_def py_range_def by (rule distinct_pairs) simp_all

lemma length_all_cells:
  assumes "0 \<le> rows b" "0 \<le> cols b"
  shows "int (length (all_cells b)) = rows b * cols b"
proof -
  have "length (all_cells b) = nat (rows b) * nat (cols b)"
    using assms by (simp add: all_cells_def py_range_def length_concat comp_def sum_list_triv)
  then have "int (length (all_cells b)) = int (nat (rows b) * nat (cols b))" by simp
  also have "\<dots> = rows b * cols b" using assms by simp
  finally show ?thesis .
qed

lemma all_cells_split:
  assumes "all_cells b = ys @ (r, c) # zs"
  shows "in_bounds b r c" and "(r, c) \<notin> set ys"
proof -
  have "(r, c) \<in> set (all_cells b)" using assms by simp
  then show "in_bounds b r c" by (simp add: set_all_cells)
  show "(r, c) \<notin> set ys" using distinct_all_cells [of b] assms by simp
qed

lemma reveal_all_mines_result:
  assumes wf: "wf_board b"
  shows "\<exists>cs. reveal_all_mines b = Inr (b\<lparr>cell_states := cs\<rparr>) \<and> shape cs (rows b) (cols b) \<and>
     (\<forall>r c. in_bounds b r c \<longrightarrow>
        cell_at cs r c =
          (if is_mine b r c \<and> state_of b r c \<noteq> FLAGGED then REVEALED else state_of b r c))"
proof -
  define P where "P ys t \<longleftrightarrow>
    (\<exists>cs. t = b\<lparr>cell_states := cs\<rparr> \<and> shape cs (rows b) (cols b) \<and>
       (\<forall>r c. in_bounds b r c \<longrightarrow>
          cell_at cs r c =
            (if (r, c) \<in> set ys \<and> is_mine b r c \<and> state_of b r c \<noteq> FLAGGED then REVEALED
             else state_of b r c)))" for ys t
  have init: "P [] b"
    unfolding P_def using wf
    by (intro exI [of _ "cell_states b"]) (simp add: wf_board_def state_of_def)
  have step: "\<exists>t'. reveal_mine_cell x t = Inr t' \<and> P (ys @ [x]) t'"
    if xs: "all_cells b = ys @ x # zs" and P: "P ys t" for ys x zs t
  proof -
    obtain r c where x: "x = (r, c)" by (cases x)
    note inb = all_cells_split [OF xs [unfolded x]]
    from P obtain cs where t: "t = b\<lparr>cell_states := cs\<rparr>"
      and sh: "shape cs (rows b) (cols b)"
      and at: "\<And>r c. in_bounds b r c \<Longrightarrow>
          cell_at cs r c =
            (if (r, c) \<in> set ys \<and> is_mine b r c \<and> state_of b r c \<noteq> FLAGGED then REVEALED
             else state_of b r c)"
      unfolding P_def by blast
    have rng: "0 \<le> r" "r < rows b" "0 \<le> c" "c < cols b"
      using inb(1) by (simp_all add: in_bounds_def)
    have g: "getitem2 (grid t) r c = Inr (cell_at (grid b) r c)"
      using wf_board_bounds(2) [OF wf inb(1)] t by simp
    have s: "getitem2 (cell_states t) r c = Inr (state_of b r c)"
      using getitem2_in [OF sh rng] at [OF inb(1)] inb(2) t by simp
    show ?thesis
    proof (cases "is_mine b r c \<and> state_of b r c \<noteq> FLAGGED")
      case True
      have "reveal_mine_cell x t = Inr (b\<lparr>cell_states := cell_upd cs r c REVEALED\<rparr>)"
        using True g s setitem2_in [OF sh rng, of REVEALED] t x
        by (simp add: reveal_mine_cell_def is_mine_def)
      moreover have "P (ys @ [x]) (b\<lparr>cell_states := cell_upd cs r c REVEALED\<rparr>)"
        unfolding P_def
      proof (intro exI [of _ "cell_upd cs r c REVEALED"] conjI allI impI)
        show "shape (cell_upd cs r c REVEALED) (rows b) (cols b)"
          using sh by (rule shape_cell_upd)
      next
        fix r' c' assume inb': "in_bounds b r' c'"
        then have "0 \<le> r'" "0 \<le> c'" by (simp_all add: in_bounds_def)
        from cell_at_cell_upd [OF sh rng this] at [OF inb'] True x
        show "cell_at (cell_upd cs r c REVEALED) r' c' =
            (if (r', c') \<in> set (ys @ [x]) \<and> is_mine b r' c' \<and> state_of b r' c' \<noteq> FLAGGED
             then REVEALED else state_of b r' c')"
          by auto
      qed simp
      ultimately show ?thesis by blast
    next
      case False
      have "reveal_mine_cell x t = Inr t"
        using False g s x by (auto simp: reveal_mine_cell_def is_mine_def)
      moreover have "P (ys @ [x]) t"
        unfolding P_def
      proof (intro exI [of _ cs] conjI allI impI)
        fix r' c' assume inb': "in_bounds b r' c'"
        from at [OF inb'] False x
        show "cell_at cs r' c' =
            (if (r', c') \<in> set (ys @ [x]) \<and> is_mine b r' c' \<and> state_of b r' c' \<noteq> FLAGGED
             then REVEALED else state_of b r' c')"
          by auto
      qed (simp_all add: t sh)
      ultimately show ?thesis by blast
    qed
  qed
  have "\<exists>t. foldM reveal_mine_cell (all_cells b) b = Inr t \<and> P (all_cells b) t"
    by (rule foldM_prefix [where P = P, OF init]) (rule step; assumption)
  then obtain t where "reveal_all_mines b = Inr t" "P (all_cells b) t"
    unfolding reveal_all_mines_def by blast
  then show ?thesis
    unfolding P_def by (auto simp: set_all_cells)
qed

section \<open>Hitting a mine\<close>

text \<open>
  C8: \<open>reveal\<close> on a mine cell that is not yet \<open>REVEALED\<close>, in a game that is not over, sets
  \<open>game_over\<close> and changes the cell states as follows: the clicked cell and every mine cell
  that is not \<open>FLAGGED\<close> become \<open>REVEALED\<close>, every other cell (so every other flagged cell and
  every cell without a mine) keeps its state. No other field of the board changes.
\<close>

theorem reveal_mine:
  assumes "wf_board b" "in_bounds b row col" "\<not> game_over b"
    and "state_of b row col \<noteq> REVEALED" "is_mine b row col"
  shows "\<exists>cs. reveal (Suc depth) b row col = Some (Inr (b\<lparr>cell_states := cs, game_over := True\<rparr>))
     \<and> shape cs (rows b) (cols b)
     \<and> (\<forall>r c. in_bounds b r c \<longrightarrow>
          cell_at cs r c =
            (if (r = row \<and> c = col) \<or> (is_mine b r c \<and> state_of b r c \<noteq> FLAGGED) then REVEALED
             else state_of b r c))"
proof -
  let ?cs1 = "cell_upd (cell_states b) row col REVEALED"
  let ?b1 = "b\<lparr>cell_states := ?cs1, game_over := True\<rparr>"
  have sh: "shape (cell_states b) (rows b) (cols b)"
    using assms(1) by (simp add: wf_board_def)
  have rng: "0 \<le> row" "row < rows b" "0 \<le> col" "col < cols b"
    using assms(2) by (simp_all add: in_bounds_def)
  have wf1: "wf_board ?b1"
    using assms(1) by (simp add: wf_board_def shape_cell_upd)
  have inb1: "in_bounds ?b1 r c \<longleftrightarrow> in_bounds b r c" for r c
    by (simp add: in_bounds_def)
  have mine1: "is_mine ?b1 r c \<longleftrightarrow> is_mine b r c" for r c
    by (simp add: is_mine_def)
  have st1: "state_of ?b1 r c = (if r = row \<and> c = col then REVEALED else state_of b r c)"
    if "in_bounds b r c" for r c
    using cell_at_cell_upd [OF sh rng, of r c REVEALED] that
    by (simp add: state_of_def in_bounds_def)
  from reveal_all_mines_result [OF wf1]
  obtain cs where ram: "reveal_all_mines ?b1 = Inr (?b1\<lparr>cell_states := cs\<rparr>)"
    and shcs: "shape cs (rows b) (cols b)"
    and at: "\<And>r c. in_bounds b r c \<Longrightarrow>
        cell_at cs r c =
          (if is_mine ?b1 r c \<and> state_of ?b1 r c \<noteq> FLAGGED then REVEALED else state_of ?b1 r c)"
    by (auto simp: inb1)
  have "reveal (Suc depth) b row col = Some (Inr (b\<lparr>cell_states := cs, game_over := True\<rparr>))"
    using assms(3-5) wf_board_bounds [OF assms(1,2)] ram
    by (simp add: state_of_def is_mine_def)
  moreover have "cell_at cs r c =
      (if (r = row \<and> c = col) \<or> (is_mine b r c \<and> state_of b r c \<noteq> FLAGGED) then REVEALED
       else state_of b r c)" if "in_bounds b r c" for r c
    using at [OF that] st1 [OF that] mine1 [of r c] assms(5) by auto
  ultimately show ?thesis using shcs by blast
qed

theorem reveal_mine_witness:
  "wf_board mid_board \<and> in_bounds mid_board 0 2 \<and> \<not> game_over mid_board
   \<and> state_of mid_board 0 2 \<noteq> REVEALED \<and> is_mine mid_board 0 2
   \<and> (\<exists>cs. reveal (Suc 0) mid_board 0 2 = Some (Inr (mid_board\<lparr>cell_states := cs, game_over := True\<rparr>))
     \<and> shape cs (rows mid_board) (cols mid_board)
     \<and> (\<forall>r c. in_bounds mid_board r c \<longrightarrow>
          cell_at cs r c =
            (if (r = 0 \<and> c = 2) \<or> (is_mine mid_board r c \<and> state_of mid_board r c \<noteq> FLAGGED) then REVEALED
             else state_of mid_board r c)))"
proof -
  have h: "wf_board mid_board" "in_bounds mid_board 0 2" "\<not> game_over mid_board"
    "state_of mid_board 0 2 \<noteq> REVEALED" "is_mine mid_board 0 2"
    by (simp_all add: mid_board_def eval_defs state_of_def is_mine_def)
  from reveal_mine [OF h, of 0] h show ?thesis by blast
qed

section \<open>Winning\<close>

lemma count_revealed_loop:
  assumes wf: "wf_board b" and "\<forall>(r, c) \<in> set xs. in_bounds b r c"
  shows "foldM (count_revealed_cell b) xs n =
     Inr (n + int (length (filter (\<lambda>(r, c). state_of b r c = REVEALED \<and> \<not> is_mine b r c) xs)))"
  using assms(2)
proof (induction xs arbitrary: n)
  case Nil
  then show ?case by simp
next
  case (Cons x xs)
  obtain r c where x: "x = (r, c)" by (cases x)
  have inb: "in_bounds b r c" using Cons.prems x by simp
  have "count_revealed_cell b x n =
      Inr (if state_of b r c = REVEALED \<and> \<not> is_mine b r c then n + 1 else n)"
    using wf_board_bounds(1,2) [OF wf inb] x
    by (simp add: count_revealed_cell_def state_of_def is_mine_def)
  then show ?case
    using Cons.IH Cons.prems x by simp
qed

lemma flag_mines_result:
  assumes wf: "wf_board b"
  shows "\<exists>cs. foldM flag_mine_cell (all_cells b) b =
        Inr (b\<lparr>cell_states := cs, flags_placed := flags_placed b + int (hidden_mines b)\<rparr>)
     \<and> shape cs (rows b) (cols b)
     \<and> (\<forall>r c. in_bounds b r c \<longrightarrow>
          cell_at cs r c =
            (if is_mine b r c \<and> state_of b r c = HIDDEN then FLAGGED else state_of b r c))"
proof -
  let ?hm = "\<lambda>(r, c). is_mine b r c \<and> state_of b r c = HIDDEN"
  define P where "P ys t \<longleftrightarrow>
    (\<exists>cs. t = b\<lparr>cell_states := cs, flags_placed := flags_placed b + int (length (filter ?hm ys))\<rparr>
       \<and> shape cs (rows b) (cols b) \<and>
       (\<forall>r c. in_bounds b r c \<longrightarrow>
          cell_at cs r c =
            (if (r, c) \<in> set ys \<and> is_mine b r c \<and> state_of b r c = HIDDEN then FLAGGED
             else state_of b r c)))" for ys t
  have init: "P [] b"
    unfolding P_def using wf
    by (intro exI [of _ "cell_states b"]) (simp add: wf_board_def state_of_def)
  have step: "\<exists>t'. flag_mine_cell x t = Inr t' \<and> P (ys @ [x]) t'"
    if xs: "all_cells b = ys @ x # zs" and P: "P ys t" for ys x zs t
  proof -
    obtain r c where x: "x = (r, c)" by (cases x)
    note inb = all_cells_split [OF xs [unfolded x]]
    from P obtain cs
      where t: "t = b\<lparr>cell_states := cs, flags_placed := flags_placed b + int (length (filter ?hm ys))\<rparr>"
      and sh: "shape cs (rows b) (cols b)"
      and at: "\<And>r c. in_bounds b r c \<Longrightarrow>
          cell_at cs r c =
            (if (r, c) \<in> set ys \<and> is_mine b r c \<and> state_of b r c = HIDDEN then FLAGGED
             else state_of b r c)"
      unfolding P_def by blast
    have rng: "0 \<le> r" "r < rows b" "0 \<le> c" "c < cols b"
      using inb(1) by (simp_all add: in_bounds_def)
    have g: "getitem2 (grid t) r c = Inr (cell_at (grid b) r c)"
      using wf_board_bounds(2) [OF wf inb(1)] t by simp
    have s: "getitem2 (cell_states t) r c = Inr (state_of b r c)"
      using getitem2_in [OF sh rng] at [OF inb(1)] inb(2) t by simp
    show ?thesis
    proof (cases "is_mine b r c \<and> state_of b r c = HIDDEN")
      case True
      let ?t' = "b\<lparr>cell_states := cell_upd cs r c FLAGGED,
                   flags_placed := flags_placed b + int (length (filter ?hm (ys @ [x])))\<rparr>"
      have "flag_mine_cell x t = Inr ?t'"
        using True g s setitem2_in [OF sh rng, of FLAGGED] t x
        by (simp add: flag_mine_cell_def is_mine_def)
      moreover have "P (ys @ [x]) ?t'"
        unfolding P_def
      proof (intro exI [of _ "cell_upd cs r c FLAGGED"] conjI allI impI)
        show "shape (cell_upd cs r c FLAGGED) (rows b) (cols b)"
          using sh by (rule shape_cell_upd)
      next
        fix r' c' assume inb': "in_bounds b r' c'"
        then have "0 \<le> r'" "0 \<le> c'" by (simp_all add: in_bounds_def)
        from cell_at_cell_upd [OF sh rng this] at [OF inb'] True x
        show "cell_at (cell_upd cs r c FLAGGED) r' c' =
            (if (r', c') \<in> set (ys @ [x]) \<and> is_mine b r' c' \<and> state_of b r' c' = HIDDEN
             then FLAGGED else state_of b r' c')"
          by auto
      qed simp
      ultimately show ?thesis by blast
    next
      case False
      have "flag_mine_cell x t = Inr t"
        using False g s x by (auto simp: flag_mine_cell_def is_mine_def)
      moreover have "P (ys @ [x]) t"
        unfolding P_def
      proof (intro exI [of _ cs] conjI allI impI)
        fix r' c' assume inb': "in_bounds b r' c'"
        from at [OF inb'] False x
        show "cell_at cs r' c' =
            (if (r', c') \<in> set (ys @ [x]) \<and> is_mine b r' c' \<and> state_of b r' c' = HIDDEN
             then FLAGGED else state_of b r' c')"
          by auto
      qed (use False x in \<open>simp_all add: t sh\<close>)
      ultimately show ?thesis by blast
    qed
  qed
  have "\<exists>t. foldM flag_mine_cell (all_cells b) b = Inr t \<and> P (all_cells b) t"
    by (rule foldM_prefix [where P = P, OF init]) (rule step; assumption)
  then obtain t where "foldM flag_mine_cell (all_cells b) b = Inr t" "P (all_cells b) t"
    by blast
  then show ?thesis
    unfolding P_def hidden_mines_def by (auto simp: set_all_cells)
qed

lemma check_win_effect:
  assumes "wf_board b"
  shows "if int (revealed_non_mines b) = rows b * cols b - mines b
     then \<exists>cs. check_win b =
            Inr (b\<lparr>cell_states := cs, flags_placed := flags_placed b + int (hidden_mines b),
                   game_over := True, game_won := True\<rparr>)
          \<and> shape cs (rows b) (cols b)
          \<and> (\<forall>r c. in_bounds b r c \<longrightarrow>
               cell_at cs r c =
                 (if is_mine b r c \<and> state_of b r c = HIDDEN then FLAGGED else state_of b r c))
     else check_win b = Inr b"
proof -
  have cnt: "foldM (count_revealed_cell b) (all_cells b) 0 = Inr (int (revealed_non_mines b))"
    using count_revealed_loop [OF assms, of "all_cells b" 0]
    by (simp add: set_all_cells revealed_non_mines_def)
  let ?b1 = "b\<lparr>game_won := True, game_over := True\<rparr>"
  have wf1: "wf_board ?b1"
    using assms by (simp add: wf_board_def)
  have same: "all_cells ?b1 = all_cells b" "hidden_mines ?b1 = hidden_mines b"
    "\<And>r c. in_bounds ?b1 r c = in_bounds b r c" "\<And>r c. is_mine ?b1 r c = is_mine b r c"
    "\<And>r c. state_of ?b1 r c = state_of b r c"
    by (simp_all add: all_cells_def hidden_mines_def in_bounds_def is_mine_def state_of_def)
  from flag_mines_result [OF wf1]
  obtain cs where fm: "foldM flag_mine_cell (all_cells b) ?b1 =
        Inr (?b1\<lparr>cell_states := cs, flags_placed := flags_placed b + int (hidden_mines b)\<rparr>)"
    and sh: "shape cs (rows b) (cols b)"
    and at: "\<forall>r c. in_bounds b r c \<longrightarrow>
        cell_at cs r c =
          (if is_mine b r c \<and> state_of b r c = HIDDEN then FLAGGED else state_of b r c)"
    unfolding same by auto
  show ?thesis
  proof (cases "int (revealed_non_mines b) = rows b * cols b - mines b")
    case True
    have "check_win b =
        Inr (b\<lparr>cell_states := cs, flags_placed := flags_placed b + int (hidden_mines b),
               game_over := True, game_won := True\<rparr>)"
      using True by (simp add: check_win_def cnt fm)
    with True sh at show ?thesis by auto
  next
    case False
    then show ?thesis by (simp add: check_win_def cnt)
  qed
qed

lemma length_filter_conj_le: "length (filter (\<lambda>x. P x \<and> Q x) xs) \<le> length (filter Q xs)"
  by (induction xs) auto

lemma length_filter_conj_eq:
  "length (filter (\<lambda>x. P x \<and> Q x) xs) = length (filter Q xs) \<longleftrightarrow> (\<forall>x \<in> set xs. Q x \<longrightarrow> P x)"
proof (induction xs)
  case Nil
  then show ?case by simp
next
  case (Cons a xs)
  from length_filter_conj_le [of P Q xs]
  have "length (filter (\<lambda>x. P x \<and> Q x) xs) \<noteq> Suc (length (filter Q xs))" by simp
  with Cons show ?case by auto
qed

lemma win_test_all_revealed:
  assumes wf: "wf_board b" and m: "mines b = int (mine_cells b)"
  shows "int (revealed_non_mines b) = rows b * cols b - mines b \<longleftrightarrow>
     (\<forall>r c. in_bounds b r c \<and> \<not> is_mine b r c \<longrightarrow> state_of b r c = REVEALED)"
proof -
  define M where "M x = is_mine b (fst x) (snd x)" for x
  define P where "P x \<longleftrightarrow> state_of b (fst x) (snd x) = REVEALED" for x
  have rnm: "revealed_non_mines b = length (filter (\<lambda>x. P x \<and> \<not> M x) (all_cells b))"
    by (simp add: revealed_non_mines_def P_def M_def case_prod_unfold)
  have "M = (\<lambda>x. is_mine b (fst x) (snd x))"
    by (simp add: fun_eq_iff M_def)
  then have mc: "mine_cells b = length (filter M (all_cells b))"
    by (simp add: mine_cells_def case_prod_unfold)
  have len: "int (length (all_cells b)) = rows b * cols b"
    using wf by (intro length_all_cells) (simp_all add: wf_board_def)
  from sum_length_filter_compl [of M "all_cells b"]
  have "rows b * cols b - mines b = int (length (filter (\<lambda>x. \<not> M x) (all_cells b)))"
    using len m mc by simp
  then have "int (revealed_non_mines b) = rows b * cols b - mines b \<longleftrightarrow>
      length (filter (\<lambda>x. P x \<and> \<not> M x) (all_cells b)) = length (filter (\<lambda>x. \<not> M x) (all_cells b))"
    by (simp add: rnm)
  also have "\<dots> \<longleftrightarrow> (\<forall>x \<in> set (all_cells b). \<not> M x \<longrightarrow> P x)"
    by (rule length_filter_conj_eq)
  also have "\<dots> \<longleftrightarrow> (\<forall>r c. in_bounds b r c \<and> \<not> is_mine b r c \<longrightarrow> state_of b r c = REVEALED)"
    by (auto simp: set_all_cells M_def P_def)
  finally show ?thesis .
qed

text \<open>
  C5, as the code has it: \<open>_check_win\<close> compares the number of \<open>REVEALED\<close> cells without a mine
  with \<open>rows * cols - mines\<close>. When they are equal it sets \<open>game_won\<close> and \<open>game_over\<close>, turns every
  \<open>HIDDEN\<close> mine cell to \<open>FLAGGED\<close>, adds their number to \<open>flags_placed\<close> and changes no other
  cell (so no \<open>REVEALED\<close> cell); when they differ it changes nothing at all. On a board whose
  \<open>mines\<close> field is the number of mine cells of its grid, as \<open>_place_mines\<close> leaves it, the two
  numbers are equal exactly when every cell without a mine is \<open>REVEALED\<close>.
\<close>

theorem check_win_result:
  assumes "wf_board b"
  shows "(if int (revealed_non_mines b) = rows b * cols b - mines b
     then \<exists>cs. check_win b =
            Inr (b\<lparr>cell_states := cs, flags_placed := flags_placed b + int (hidden_mines b),
                   game_over := True, game_won := True\<rparr>)
          \<and> shape cs (rows b) (cols b)
          \<and> (\<forall>r c. in_bounds b r c \<longrightarrow>
               cell_at cs r c =
                 (if is_mine b r c \<and> state_of b r c = HIDDEN then FLAGGED else state_of b r c))
     else check_win b = Inr b)
   \<and> (mines b = int (mine_cells b) \<longrightarrow>
        (int (revealed_non_mines b) = rows b * cols b - mines b \<longleftrightarrow>
         (\<forall>r c. in_bounds b r c \<and> \<not> is_mine b r c \<longrightarrow> state_of b r c = REVEALED)))"
  using check_win_effect [OF assms] win_test_all_revealed [OF assms] by blast

theorem check_win_result_witness:
  "wf_board last_board
   \<and> int (revealed_non_mines last_board) = rows last_board * cols last_board - mines last_board
   \<and> (\<exists>cs. check_win last_board =
            Inr (last_board\<lparr>cell_states := cs,
                   flags_placed := flags_placed last_board + int (hidden_mines last_board),
                   game_over := True, game_won := True\<rparr>)
          \<and> shape cs (rows last_board) (cols last_board)
          \<and> (\<forall>r c. in_bounds last_board r c \<longrightarrow>
               cell_at cs r c =
                 (if is_mine last_board r c \<and> state_of last_board r c = HIDDEN then FLAGGED
                  else state_of last_board r c)))
   \<and> mines last_board = int (mine_cells last_board)
   \<and> (\<exists>t. \<forall>r c. t \<and> in_bounds last_board r c \<and> \<not> is_mine last_board r c
            \<longrightarrow> state_of last_board r c = REVEALED)
   \<and> wf_board mid_board
   \<and> int (revealed_non_mines mid_board) \<noteq> rows mid_board * cols mid_board - mines mid_board
   \<and> check_win mid_board = Inr mid_board
   \<and> mines mid_board = int (mine_cells mid_board)
   \<and> in_bounds mid_board 0 3 \<and> \<not> is_mine mid_board 0 3 \<and> state_of mid_board 0 3 = HIDDEN"
proof -
  have h: "wf_board last_board" "wf_board mid_board"
    by (simp_all add: last_board_def mid_board_def eval_defs)
  have c: "int (revealed_non_mines last_board) = rows last_board * cols last_board - mines last_board"
    "int (revealed_non_mines mid_board) \<noteq> rows mid_board * cols mid_board - mines mid_board"
    by (simp_all add: last_board_def mid_board_def eval_defs revealed_non_mines_def state_of_def is_mine_def)
  have m: "mines last_board = int (mine_cells last_board)" "mines mid_board = int (mine_cells mid_board)"
    by (simp_all add: last_board_def mid_board_def eval_defs mine_cells_def is_mine_def)
  have x: "in_bounds mid_board 0 3" "\<not> is_mine mid_board 0 3" "state_of mid_board 0 3 = HIDDEN"
    by (simp_all add: mid_board_def eval_defs state_of_def is_mine_def)
  from check_win_result [OF h(1)] c(1) m(1)
  have 1: "\<exists>cs. check_win last_board =
            Inr (last_board\<lparr>cell_states := cs,
                   flags_placed := flags_placed last_board + int (hidden_mines last_board),
                   game_over := True, game_won := True\<rparr>)
          \<and> shape cs (rows last_board) (cols last_board)
          \<and> (\<forall>r c. in_bounds last_board r c \<longrightarrow>
               cell_at cs r c =
                 (if is_mine last_board r c \<and> state_of last_board r c = HIDDEN then FLAGGED
                  else state_of last_board r c))"
    and 2: "\<forall>r c. in_bounds last_board r c \<and> \<not> is_mine last_board r c
            \<longrightarrow> state_of last_board r c = REVEALED"
    by simp_all
  from 2 have 3: "\<exists>t. \<forall>r c. t \<and> in_bounds last_board r c \<and> \<not> is_mine last_board r c
            \<longrightarrow> state_of last_board r c = REVEALED"
    by (intro exI [of _ True]) simp
  from check_win_result [OF h(2)] c(2) have 4: "check_win mid_board = Inr mid_board"
    by simp
  from h c m x 1 3 4 show ?thesis by blast
qed

text \<open>
  C5 as stated fails on a board whose mines are not placed yet: on a new board of one cell
  with one requested mine a right click flags the cell, and \<open>_check_win\<close> then finds
  \<open>0 = 1 * 1 - 1\<close> and sets \<open>game_won\<close>, although the only cell holds no mine and is not
  \<open>REVEALED\<close>. With that cell \<open>REVEALED\<close> instead, \<open>_check_win\<close> does not set \<open>game_won\<close>.
\<close>

theorem check_win_unmined_counterexample:
  "handle_click 1 [] 0 0 (Board_init 1 1 1) ((0::int), (0::int)) 3 =
     Some (Inr ((Board_init 1 1 1)\<lparr>cell_states := [[FLAGGED]], flags_placed := 1,
                  game_over := True, game_won := True\<rparr>))
   \<and> check_win ((Board_init 1 1 1)\<lparr>cell_states := [[FLAGGED]], flags_placed := 1\<rparr>) =
       Inr ((Board_init 1 1 1)\<lparr>cell_states := [[FLAGGED]], flags_placed := 1,
              game_over := True, game_won := True\<rparr>)
   \<and> in_bounds ((Board_init 1 1 1)\<lparr>cell_states := [[FLAGGED]], flags_placed := 1\<rparr>) 0 0
   \<and> \<not> is_mine ((Board_init 1 1 1)\<lparr>cell_states := [[FLAGGED]], flags_placed := 1\<rparr>) 0 0
   \<and> state_of ((Board_init 1 1 1)\<lparr>cell_states := [[FLAGGED]], flags_placed := 1\<rparr>) 0 0 = FLAGGED
   \<and> check_win ((Board_init 1 1 1)\<lparr>cell_states := [[REVEALED]]\<rparr>) =
       Inr ((Board_init 1 1 1)\<lparr>cell_states := [[REVEALED]]\<rparr>)
   \<and> \<not> game_won ((Board_init 1 1 1)\<lparr>cell_states := [[REVEALED]]\<rparr>)"
  by (simp add: handle_click_def right_click_def toggle_flag_def check_win_def
      count_revealed_cell_def flag_mine_cell_def state_of_def is_mine_def eval_defs)

section \<open>Adjacent mine counts\<close>

lemma offsets_eval:
  "offsets = [(-1, -1), (-1, 0), (-1, 1), (0, -1), (0, 0), (0, 1), (1, -1), (1, 0), (1, 1)]"
  by (simp add: offsets_def py_range_def upto.simps)

lemma neighbours8_offsets:
  "neighbours8 r c = map (\<lambda>(i, j). (r + i, c + j)) (filter (\<lambda>(i, j). \<not> (i = 0 \<and> j = 0)) offsets)"
  by (simp add: neighbours8_def offsets_eval)

lemma count_loop:
  assumes wf: "wf_board b"
  shows "foldM (count_step b r c) os n =
     Inr (n + int (length (filter (\<lambda>(nr, nc). in_bounds b nr nc \<and> is_mine b nr nc)
        (map (\<lambda>(i, j). (r + i, c + j)) (filter (\<lambda>(i, j). \<not> (i = 0 \<and> j = 0)) os)))))"
proof (induction os arbitrary: n)
  case Nil
  then show ?case by simp
next
  case (Cons x os)
  obtain i j where x: "x = (i, j)" by (cases x)
  have "count_step b r c x n =
      Inr (if \<not> (i = 0 \<and> j = 0) \<and> in_bounds b (r + i) (c + j) \<and> is_mine b (r + i) (c + j)
           then n + 1 else n)"
    using wf_board_bounds(2) [OF wf, of "r + i" "c + j"] x
    by (auto simp: count_step_def Let_def is_mine_def)
  then show ?case
    using Cons.IH x by simp
qed

lemma count_adjacent: "wf_board b \<Longrightarrow> foldM (count_step b r c) offsets 0 = Inr (int (adjacent_mines b r c))"
  by (simp add: count_loop adjacent_mines_def neighbours8_offsets)

lemma adjacent_mines_cong:
  assumes "\<And>r c. in_bounds b' r c = in_bounds b r c"
    and "\<And>r c. in_bounds b r c \<Longrightarrow> is_mine b' r c = is_mine b r c"
  shows "adjacent_mines b' r c = adjacent_mines b r c"
  unfolding adjacent_mines_def
  by (rule arg_cong [where f = length], rule filter_cong) (auto simp: assms)

lemma adjacent_mines_le: "adjacent_mines b r c \<le> 8"
proof -
  have "adjacent_mines b r c \<le> length (neighbours8 r c)"
    unfolding adjacent_mines_def by (rule length_filter_le)
  then show ?thesis by (simp add: neighbours8_def)
qed

lemma calculate_cells_result:
  assumes wf: "wf_board b"
  shows "\<exists>g. calculate_adjacent_mines b = Inr (b\<lparr>grid := g\<rparr>) \<and> shape g (rows b) (cols b) \<and>
     (\<forall>r c. in_bounds b r c \<longrightarrow>
        cell_at g r c = (if is_mine b r c then MINE_VALUE else int (adjacent_mines b r c)))"
proof -
  define P where "P ys t \<longleftrightarrow>
    (\<exists>g. t = b\<lparr>grid := g\<rparr> \<and> shape g (rows b) (cols b) \<and>
       (\<forall>r c. in_bounds b r c \<longrightarrow>
          cell_at g r c =
            (if (r, c) \<in> set ys \<and> \<not> is_mine b r c then int (adjacent_mines b r c)
             else cell_at (grid b) r c)))" for ys t
  have init: "P [] b"
    unfolding P_def using wf
    by (intro exI [of _ "grid b"]) (simp add: wf_board_def)
  have step: "\<exists>t'. calculate_cell x t = Inr t' \<and> P (ys @ [x]) t'"
    if xs: "all_cells b = ys @ x # zs" and P: "P ys t" for ys x zs t
  proof -
    obtain r c where x: "x = (r, c)" by (cases x)
    note inb = all_cells_split [OF xs [unfolded x]]
    from P obtain g where t: "t = b\<lparr>grid := g\<rparr>"
      and sh: "shape g (rows b) (cols b)"
      and at: "\<And>r c. in_bounds b r c \<Longrightarrow>
          cell_at g r c =
            (if (r, c) \<in> set ys \<and> \<not> is_mine b r c then int (adjacent_mines b r c)
             else cell_at (grid b) r c)"
      unfolding P_def by blast
    have rng: "0 \<le> r" "r < rows b" "0 \<le> c" "c < cols b"
      using inb(1) by (simp_all add: in_bounds_def)
    have wft: "wf_board t"
      using wf sh t by (simp add: wf_board_def)
    have inbt: "in_bounds t r' c' = in_bounds b r' c'" for r' c'
      using t by (simp add: in_bounds_def)
    have minet: "is_mine t r' c' = is_mine b r' c'" if "in_bounds b r' c'" for r' c'
      using at [OF that] t by (auto simp: is_mine_def MINE_VALUE_def)
    have adj: "adjacent_mines t r c = adjacent_mines b r c"
      by (rule adjacent_mines_cong) (simp_all add: inbt minet)
    have g: "getitem2 (grid t) r c = Inr (cell_at (grid b) r c)"
      using getitem2_in [OF sh rng] at [OF inb(1)] inb(2) t by simp
    show ?thesis
    proof (cases "is_mine b r c")
      case True
      have "calculate_cell x t = Inr t"
        using True g x by (simp add: calculate_cell_def is_mine_def)
      moreover have "P (ys @ [x]) t"
        unfolding P_def
      proof (intro exI [of _ g] conjI allI impI)
        fix r' c' assume inb': "in_bounds b r' c'"
        from at [OF inb'] True x
        show "cell_at g r' c' =
            (if (r', c') \<in> set (ys @ [x]) \<and> \<not> is_mine b r' c' then int (adjacent_mines b r' c')
             else cell_at (grid b) r' c')"
          by auto
      qed (simp_all add: t sh)
      ultimately show ?thesis by blast
    next
      case False
      let ?n = "int (adjacent_mines b r c)"
      have "calculate_cell x t = Inr (b\<lparr>grid := cell_upd g r c ?n\<rparr>)"
        using False g x count_adjacent [OF wft, of r c] adj setitem2_in [OF sh rng, of ?n] t
        by (simp add: calculate_cell_def is_mine_def)
      moreover have "P (ys @ [x]) (b\<lparr>grid := cell_upd g r c ?n\<rparr>)"
        unfolding P_def
      proof (intro exI [of _ "cell_upd g r c ?n"] conjI allI impI)
        show "shape (cell_upd g r c ?n) (rows b) (cols b)"
          using sh by (rule shape_cell_upd)
      next
        fix r' c' assume inb': "in_bounds b r' c'"
        then have "0 \<le> r'" "0 \<le> c'" by (simp_all add: in_bounds_def)
        from cell_at_cell_upd [OF sh rng this] at [OF inb'] False x
        show "cell_at (cell_upd g r c ?n) r' c' =
            (if (r', c') \<in> set (ys @ [x]) \<and> \<not> is_mine b r' c' then int (adjacent_mines b r' c')
             else cell_at (grid b) r' c')"
          by auto
      qed simp
      ultimately show ?thesis by blast
    qed
  qed
  have "\<exists>t. foldM calculate_cell (all_cells b) b = Inr t \<and> P (all_cells b) t"
    by (rule foldM_prefix [where P = P, OF init]) (rule step; assumption)
  then obtain t where "calculate_adjacent_mines b = Inr t" "P (all_cells b) t"
    unfolding calculate_adjacent_mines_def by blast
  then show ?thesis
    unfolding P_def by (auto simp: set_all_cells is_mine_def)
qed

text \<open>
  C7: \<open>_calculate_adjacent_mines\<close> changes only \<open>grid\<close>, keeps every mine, and leaves in every
  cell without a mine the number of mines among the up to eight positions around it that lie
  in the grid, a number between 0 and 8.
\<close>

theorem calculate_adjacent_mines_result:
  assumes "wf_board b"
  shows "\<exists>g. calculate_adjacent_mines b = Inr (b\<lparr>grid := g\<rparr>) \<and> shape g (rows b) (cols b) \<and>
     (\<forall>r c. in_bounds b r c \<longrightarrow>
        (is_mine (b\<lparr>grid := g\<rparr>) r c \<longleftrightarrow> is_mine b r c) \<and>
        (\<not> is_mine (b\<lparr>grid := g\<rparr>) r c \<longrightarrow>
           cell_at g r c = int (adjacent_mines (b\<lparr>grid := g\<rparr>) r c) \<and>
           0 \<le> cell_at g r c \<and> cell_at g r c \<le> 8))"
proof -
  from calculate_cells_result [OF assms]
  obtain g where res: "calculate_adjacent_mines b = Inr (b\<lparr>grid := g\<rparr>)"
    and sh: "shape g (rows b) (cols b)"
    and at: "\<And>r c. in_bounds b r c \<Longrightarrow>
        cell_at g r c = (if is_mine b r c then MINE_VALUE else int (adjacent_mines b r c))"
    by blast
  let ?b' = "b\<lparr>grid := g\<rparr>"
  have mine: "is_mine ?b' r c \<longleftrightarrow> is_mine b r c" if "in_bounds b r c" for r c
    using at [OF that] by (auto simp: is_mine_def MINE_VALUE_def)
  have adj: "adjacent_mines ?b' r c = adjacent_mines b r c" for r c
    by (rule adjacent_mines_cong) (simp_all add: in_bounds_def mine)
  have "(is_mine ?b' r c \<longleftrightarrow> is_mine b r c) \<and>
        (\<not> is_mine ?b' r c \<longrightarrow>
           cell_at g r c = int (adjacent_mines ?b' r c) \<and> 0 \<le> cell_at g r c \<and> cell_at g r c \<le> 8)"
    if "in_bounds b r c" for r c
    using at [OF that] mine [OF that] adj [of r c] adjacent_mines_le [of b r c] by auto
  with res sh show ?thesis by blast
qed

theorem calculate_adjacent_mines_result_witness:
  "wf_board placed_board \<and>
   (\<exists>g. calculate_adjacent_mines placed_board = Inr (placed_board\<lparr>grid := g\<rparr>)
     \<and> shape g (rows placed_board) (cols placed_board) \<and>
     (\<forall>r c. in_bounds placed_board r c \<longrightarrow>
        (is_mine (placed_board\<lparr>grid := g\<rparr>) r c \<longleftrightarrow> is_mine placed_board r c) \<and>
        (\<not> is_mine (placed_board\<lparr>grid := g\<rparr>) r c \<longrightarrow>
           cell_at g r c = int (adjacent_mines (placed_board\<lparr>grid := g\<rparr>) r c) \<and>
           0 \<le> cell_at g r c \<and> cell_at g r c \<le> 8)))"
proof -
  have h: "wf_board placed_board"
    by (simp add: placed_board_def eval_defs)
  from calculate_adjacent_mines_result [OF h] h show ?thesis by blast
qed

section \<open>The recursion of \<open>reveal\<close>\<close>

lemma visit_neighbours_cases:
  assumes "visit_neighbours rec row col ((i, j) # os) b = Some (Inr b')"
  obtains (skip) "visit_neighbours rec row col os b = Some (Inr b')"
      "(i = 0 \<and> j = 0) \<or> \<not> in_bounds b (row + i) (col + j)
       \<or> (\<exists>s. getitem2 (cell_states b) (row + i) (col + j) = Inr s \<and> s \<noteq> HIDDEN)"
    | (call) b1 where "\<not> (i = 0 \<and> j = 0)" "in_bounds b (row + i) (col + j)"
      "getitem2 (cell_states b) (row + i) (col + j) = Inr HIDDEN"
      "rec b (row + i) (col + j) = Some (Inr b1)"
      "visit_neighbours rec row col os b1 = Some (Inr b')"
  using assms
  by (auto simp: Let_def split: if_splits sum.splits option.splits)

lemma visit_neighbours_rel:
  assumes refl: "\<And>b. I b \<Longrightarrow> R b b"
    and trans: "\<And>a b c. R a b \<Longrightarrow> R b c \<Longrightarrow> R a c"
    and rec: "\<And>b r c b'. I b \<Longrightarrow> in_bounds b r c \<Longrightarrow> getitem2 (cell_states b) r c = Inr HIDDEN
        \<Longrightarrow> rec b r c = Some (Inr b') \<Longrightarrow> I b' \<and> R b b'"
  shows "I b \<Longrightarrow> visit_neighbours rec row col os b = Some (Inr b') \<Longrightarrow> I b' \<and> R b b'"
proof (induction os arbitrary: b)
  case Nil
  then show ?case using refl by simp
next
  case (Cons x os)
  obtain i j where x: "x = (i, j)" by (cases x)
  from Cons.prems(2) [unfolded x] show ?case
  proof (cases rule: visit_neighbours_cases)
    case skip
    from Cons.IH [OF Cons.prems(1) skip(1)] show ?thesis .
  next
    case (call b1)
    from rec [OF Cons.prems(1) call(2,3,4)] have 1: "I b1" "R b b1" by simp_all
    from Cons.IH [OF 1(1) call(5)] have 2: "I b'" "R b1 b'" by simp_all
    from 1 2 trans show ?thesis by blast
  qed
qed

lemma visit_neighbours_total:
  assumes rec: "\<And>b r c. I b \<Longrightarrow> in_bounds b r c \<Longrightarrow> getitem2 (cell_states b) r c = Inr HIDDEN
        \<Longrightarrow> \<exists>res. rec b r c = Some res \<and> (\<forall>b'. res = Inr b' \<longrightarrow> I b')"
  shows "I b \<Longrightarrow> \<exists>res. visit_neighbours rec row col os b = Some res"
proof (induction os arbitrary: b)
  case Nil
  then show ?case by simp
next
  case (Cons x os)
  obtain i j where x: "x = (i, j)" by (cases x)
  show ?case
  proof (cases "\<not> (i = 0 \<and> j = 0) \<and> in_bounds b (row + i) (col + j)
      \<and> getitem2 (cell_states b) (row + i) (col + j) = Inr HIDDEN")
    case True
    from rec [OF Cons.prems] True
    obtain res where res: "rec b (row + i) (col + j) = Some res" "\<forall>b'. res = Inr b' \<longrightarrow> I b'"
      by blast
    show ?thesis
    proof (cases res)
      case (Inl e)
      then show ?thesis using True res x by (auto simp: Let_def)
    next
      case (Inr b1)
      with res have "I b1" by simp
      from Cons.IH [OF this] show ?thesis using True res Inr x by (auto simp: Let_def)
    qed
  next
    case False
    from Cons.IH [OF Cons.prems] show ?thesis
      using False x by (auto simp: Let_def split: sum.splits)
  qed
qed

lemma count_row_update:
  "j < length xs \<Longrightarrow>
   length (filter P (xs[j := v])) + (if P (xs ! j) then 1 else 0) =
   length (filter P xs) + (if P v then 1 else 0)"
proof (induction xs arbitrary: j)
  case Nil
  then show ?case by simp
next
  case (Cons a xs)
  show ?case
  proof (cases j)
    case 0
    then show ?thesis by simp
  next
    case (Suc j')
    with Cons.IH [of j'] Cons.prems show ?thesis by (auto split: if_splits)
  qed
qed

lemma count_grid_update:
  "k < length xss \<Longrightarrow>
   length (filter P (concat (xss[k := row]))) + length (filter P (xss ! k)) =
   length (filter P (concat xss)) + length (filter P row)"
  by (induction xss arbitrary: k) (auto split: nat.splits)

lemma count_cell_update:
  assumes "k < length xss" "j < length (xss ! k)"
  shows "length (filter P (concat (xss[k := (xss ! k)[j := v]]))) + (if P (xss ! k ! j) then 1 else 0) =
   length (filter P (concat xss)) + (if P v then 1 else 0)"
  using count_grid_update [OF assms(1), of P "(xss ! k)[j := v]"]
    count_row_update [OF assms(2), of P v]
  by (simp split: if_splits)

lemma py_index_Inr: "py_index n i = Inr k \<Longrightarrow> k < n"
  by (auto simp: py_index_def split: if_splits)

lemma getitem2_setitem2:
  assumes "getitem2 xss r c = Inr s"
  shows "\<exists>k j. k < length xss \<and> j < length (xss ! k) \<and> s = xss ! k ! j \<and>
    (\<forall>v. setitem2 xss r c v = Inr (xss[k := (xss ! k)[j := v]]))"
proof -
  from assms obtain k where k: "py_index (length xss) r = Inr k"
    by (auto simp: getitem2_def getitem_def split: sum.splits)
  with assms obtain j where j: "py_index (length (xss ! k)) c = Inr j"
    by (auto simp: getitem2_def getitem_def split: sum.splits)
  have "k < length xss" using k by (rule py_index_Inr)
  moreover have "j < length (xss ! k)" using j by (rule py_index_Inr)
  moreover have "s = xss ! k ! j" using assms k j by (simp add: getitem2_def getitem_def)
  moreover have "\<forall>v. setitem2 xss r c v = Inr (xss[k := (xss ! k)[j := v]])"
    using k j by (simp add: setitem2_def)
  ultimately show ?thesis by blast
qed

lemma setitem2_getitem2:
  assumes "setitem2 xss r c v = Inr yss"
  obtains s where "getitem2 xss r c = Inr s"
  using assms
  by (auto simp: setitem2_def getitem2_def getitem_def split: sum.splits)

lemma unrevealed_reveal_cell:
  assumes "getitem2 (cell_states b) r c = Inr s" "setitem2 (cell_states b) r c REVEALED = Inr cs"
  shows "unrevealed (b\<lparr>cell_states := cs\<rparr>) + (if s \<noteq> REVEALED then 1 else 0) = unrevealed b"
proof -
  from getitem2_setitem2 [OF assms(1)]
  obtain k j where kj: "k < length (cell_states b)" "j < length (cell_states b ! k)"
    "s = cell_states b ! k ! j"
    "\<forall>v. setitem2 (cell_states b) r c v = Inr ((cell_states b)[k := (cell_states b ! k)[j := v]])"
    by blast
  from kj(4) [rule_format, of REVEALED] assms(2) have cs: "cs = (cell_states b)[k := (cell_states b ! k)[j := REVEALED]]"
    by simp
  from count_cell_update [OF kj(1,2), of "\<lambda>s. s \<noteq> REVEALED" REVEALED] kj(3) cs
  show ?thesis by (simp add: unrevealed_def)
qed

lemma unrevealed_pos:
  assumes "getitem2 (cell_states b) r c = Inr s" "s \<noteq> REVEALED"
  shows "0 < unrevealed b"
proof -
  from getitem2_setitem2 [OF assms(1)]
  obtain k j where kj: "k < length (cell_states b)" "j < length (cell_states b ! k)"
    "s = cell_states b ! k ! j"
    by blast
  then have "s \<in> set (concat (cell_states b))"
    by (auto intro!: bexI [of _ "cell_states b ! k"])
  with assms(2) have "filter (\<lambda>s. s \<noteq> REVEALED) (concat (cell_states b)) \<noteq> []"
    by (auto simp: filter_empty_conv)
  then show ?thesis by (simp add: unrevealed_def)
qed

lemma foldM_le:
  assumes "\<And>x s s'. f x s = Inr s' \<Longrightarrow> m s' \<le> (m s :: nat)"
  shows "foldM f xs s = Inr s' \<Longrightarrow> m s' \<le> m s"
proof (induction xs arbitrary: s)
  case Nil
  then show ?case by simp
next
  case (Cons x xs)
  from Cons.prems obtain s1 where 1: "f x s = Inr s1" "foldM f xs s1 = Inr s'"
    by (auto split: sum.splits)
  from assms [OF 1(1)] Cons.IH [OF 1(2)] show ?case by simp
qed

lemma reveal_mine_cell_unrevealed: "reveal_mine_cell x t = Inr t' \<Longrightarrow> unrevealed t' \<le> unrevealed t"
proof (cases x)
  case (Pair r c)
  assume "reveal_mine_cell x t = Inr t'"
  then consider "t' = t"
    | s cs where "getitem2 (cell_states t) r c = Inr s" "setitem2 (cell_states t) r c REVEALED = Inr cs"
        "t' = t\<lparr>cell_states := cs\<rparr>"
    using Pair by (auto simp: reveal_mine_cell_def split: sum.splits if_splits)
  then show ?thesis
  proof cases
    case 1
    then show ?thesis by simp
  next
    case 2
    from unrevealed_reveal_cell [OF 2(1,2)] 2(3) show ?thesis by simp
  qed
qed

lemma reveal_all_mines_unrevealed: "reveal_all_mines t = Inr t' \<Longrightarrow> unrevealed t' \<le> unrevealed t"
  unfolding reveal_all_mines_def
  by (rule foldM_le [where m = unrevealed and f = reveal_mine_cell]) (rule reveal_mine_cell_unrevealed)

lemma reveal_unrevealed:
  "reveal depth b row col = Some (Inr b') \<Longrightarrow>
   unrevealed b' \<le> unrevealed b \<and>
   (\<not> game_over b \<and> getitem2 (cell_states b) row col \<noteq> Inr REVEALED \<longrightarrow> unrevealed b' < unrevealed b)"
proof (induction depth arbitrary: b row col b')
  case 0
  then show ?case by simp
next
  case (Suc depth)
  show ?case
  proof (cases "game_over b \<or> getitem2 (cell_states b) row col = Inr REVEALED")
    case True
    with Suc.prems have "b' = b" by (auto split: if_splits)
    with True show ?thesis by auto
  next
    case False
    with Suc.prems obtain s cs v where s: "getitem2 (cell_states b) row col = Inr s" "s \<noteq> REVEALED"
      and cs: "setitem2 (cell_states b) row col REVEALED = Inr cs"
      and v: "getitem2 (grid b) row col = Inr v"
      and rest: "if v = MINE_VALUE then reveal_all_mines (b\<lparr>cell_states := cs, game_over := True\<rparr>) = Inr b'
         else if v = 0 then visit_neighbours (reveal depth) row col offsets (b\<lparr>cell_states := cs\<rparr>) = Some (Inr b')
         else b' = b\<lparr>cell_states := cs\<rparr>"
      by (auto simp: Let_def split: if_splits sum.splits)
    let ?b1 = "b\<lparr>cell_states := cs\<rparr>"
    from unrevealed_reveal_cell [OF s(1) cs] s(2) have 1: "Suc (unrevealed ?b1) = unrevealed b"
      by simp
    have "unrevealed b' \<le> unrevealed ?b1"
    proof (cases "v = MINE_VALUE")
      case True
      with rest have "reveal_all_mines (?b1\<lparr>game_over := True\<rparr>) = Inr b'" by simp
      from reveal_all_mines_unrevealed [OF this] show ?thesis by (simp add: unrevealed_def)
    next
      case nm: False
      show ?thesis
      proof (cases "v = 0")
        case True
        with nm rest have vis: "visit_neighbours (reveal depth) row col offsets ?b1 = Some (Inr b')"
          by simp
        have "True \<and> unrevealed b' \<le> unrevealed ?b1"
          by (rule visit_neighbours_rel [where I = "\<lambda>_. True" and R = "\<lambda>a b. unrevealed b \<le> unrevealed a"
                and rec = "reveal depth", OF _ _ _ _ vis])
            (use Suc.IH in auto)
        then show ?thesis by simp
      next
        case False
        with nm rest show ?thesis by simp
      qed
    qed
    with 1 False show ?thesis by simp
  qed
qed

lemma reveal_total:
  "0 < depth \<Longrightarrow> unrevealed b \<le> depth \<Longrightarrow> \<exists>res. reveal depth b row col = Some res"
proof (induction depth arbitrary: b row col)
  case 0
  then show ?case by simp
next
  case (Suc depth)
  show ?case
  proof (cases "game_over b \<or> getitem2 (cell_states b) row col = Inr REVEALED")
    case True
    then show ?thesis by auto
  next
    case False
    show ?thesis
    proof (cases "getitem2 (cell_states b) row col")
      case (Inl e)
      with False show ?thesis by simp
    next
      case (Inr s)
      with False have s: "s \<noteq> REVEALED" by simp
      from getitem2_setitem2 [OF Inr]
      obtain cs where cs: "setitem2 (cell_states b) row col REVEALED = Inr cs"
        by blast
      let ?b1 = "b\<lparr>cell_states := cs\<rparr>"
      from unrevealed_reveal_cell [OF Inr cs] s Suc.prems have 1: "unrevealed ?b1 \<le> depth"
        by simp
      have vis: "\<exists>res. visit_neighbours (reveal depth) row col offsets ?b1 = Some res"
      proof (rule visit_neighbours_total [where I = "\<lambda>b. unrevealed b \<le> depth"])
        show "unrevealed ?b1 \<le> depth" by (rule 1)
      next
        fix t r c
        assume t: "unrevealed t \<le> depth" and h: "getitem2 (cell_states t) r c = Inr HIDDEN"
        from unrevealed_pos [OF h] t have "0 < depth" by simp
        from Suc.IH [OF this t] obtain res where res: "reveal depth t r c = Some res" by blast
        have "unrevealed b' \<le> depth" if "res = Inr b'" for b'
          using reveal_unrevealed [of depth t r c b'] res that t by simp
        with res show "\<exists>res. reveal depth t r c = Some res \<and> (\<forall>b'. res = Inr b' \<longrightarrow> unrevealed b' \<le> depth)"
          by blast
      qed
      show ?thesis
        using False Inr s cs vis by (auto simp: Let_def split: sum.splits)
    qed
  qed
qed

lemma unrevealed_le:
  assumes "wf_board b"
  shows "int (unrevealed b) \<le> rows b * cols b"
proof -
  have "length (concat (cell_states b)) = nat (rows b) * nat (cols b)"
    using assms
    by (simp add: wf_board_def shape_def length_concat list_all_iff sum_list_triv
        map_replicate_const [symmetric] cong: map_cong)
  moreover have "unrevealed b \<le> length (concat (cell_states b))"
    unfolding unrevealed_def by (rule length_filter_le)
  ultimately have "unrevealed b \<le> nat (rows b) * nat (cols b)" by simp
  then have "int (unrevealed b) \<le> int (nat (rows b) * nat (cols b))" by (simp only: of_nat_le_iff)
  also have "\<dots> = rows b * cols b" using assms by (simp add: wf_board_def)
  finally show ?thesis .
qed

section \<open>The flag counter\<close>

lemma foldM_inv:
  assumes "\<And>x s s'. I s \<Longrightarrow> f x s = Inr s' \<Longrightarrow> I s'"
  shows "I s \<Longrightarrow> foldM f xs s = Inr s' \<Longrightarrow> I s'"
proof (induction xs arbitrary: s)
  case Nil
  then show ?case by simp
next
  case (Cons x xs)
  from Cons.prems(2) obtain s1 where 1: "f x s = Inr s1" "foldM f xs s1 = Inr s'"
    by (auto split: sum.splits)
  from Cons.IH [OF assms [OF Cons.prems(1) 1(1)] 1(2)] show ?case .
qed

lemma flagged_update:
  assumes "getitem2 (cell_states b) r c = Inr s" "setitem2 (cell_states b) r c v = Inr cs"
    and "cell_states b' = cs"
  shows "flagged_cells b' + (if s = FLAGGED then 1 else 0) =
         flagged_cells b + (if v = FLAGGED then 1 else 0)"
proof -
  from getitem2_setitem2 [OF assms(1)]
  obtain k j where kj: "k < length (cell_states b)" "j < length (cell_states b ! k)"
    "s = cell_states b ! k ! j"
    "\<forall>v. setitem2 (cell_states b) r c v = Inr ((cell_states b)[k := (cell_states b ! k)[j := v]])"
    by blast
  from kj(4) [rule_format, of v] assms(2) have cs: "cs = (cell_states b)[k := (cell_states b ! k)[j := v]]"
    by simp
  from count_cell_update [OF kj(1,2), of "\<lambda>s. s = FLAGGED" v] kj(3) cs assms(3)
  show ?thesis by (simp add: flagged_cells_def)
qed

lemma flags_ok_cong:
  "cell_states b' = cell_states b \<Longrightarrow> flags_placed b' = flags_placed b \<Longrightarrow> flags_ok b' = flags_ok b"
  by (simp add: flags_ok_def flagged_cells_def)

lemma toggle_flag_flags_ok:
  assumes "toggle_flag b row col = Inr b'" "flags_ok b"
  shows "flags_ok b'"
proof -
  from assms(1) obtain s where s: "getitem2 (cell_states b) row col = Inr s"
    by (auto simp: toggle_flag_def split: sum.splits)
  show ?thesis
  proof (cases s)
    case HIDDEN
    with assms(1) s obtain cs where cs: "setitem2 (cell_states b) row col FLAGGED = Inr cs"
      and b': "b' = b\<lparr>cell_states := cs, flags_placed := flags_placed b + 1\<rparr>"
      by (auto simp: toggle_flag_def split: sum.splits)
    from flagged_update [OF s cs, of b'] b' HIDDEN assms(2) show ?thesis
      by (simp add: flags_ok_def)
  next
    case REVEALED
    with assms s show ?thesis by (simp add: toggle_flag_def)
  next
    case FLAGGED
    with assms(1) s obtain cs where cs: "setitem2 (cell_states b) row col HIDDEN = Inr cs"
      and b': "b' = b\<lparr>cell_states := cs, flags_placed := flags_placed b - 1\<rparr>"
      by (auto simp: toggle_flag_def split: sum.splits)
    from flagged_update [OF s cs, of b'] b' FLAGGED assms(2) show ?thesis
      by (simp add: flags_ok_def)
  qed
qed

lemma reveal_mine_cell_flags:
  assumes "reveal_mine_cell x t = Inr t'"
  shows "flagged_cells t' = flagged_cells t \<and> flags_placed t' = flags_placed t"
proof (cases x)
  case (Pair r c)
  from assms consider "t' = t"
    | s cs where "getitem2 (cell_states t) r c = Inr s" "s \<noteq> FLAGGED"
        "setitem2 (cell_states t) r c REVEALED = Inr cs" "t' = t\<lparr>cell_states := cs\<rparr>"
    using Pair by (auto simp: reveal_mine_cell_def split: sum.splits if_splits)
  then show ?thesis
  proof cases
    case 1
    then show ?thesis by simp
  next
    case 2
    from flagged_update [OF 2(1,3), of t'] 2(2,4) show ?thesis by simp
  qed
qed

lemma reveal_all_mines_flags:
  assumes "reveal_all_mines t = Inr t'"
  shows "flagged_cells t' = flagged_cells t \<and> flags_placed t' = flags_placed t"
proof -
  let ?I = "\<lambda>s. flagged_cells s = flagged_cells t \<and> flags_placed s = flags_placed t"
  have step: "?I s'" if "?I s" "reveal_mine_cell x s = Inr s'" for x s s'
    using reveal_mine_cell_flags [OF that(2)] that(1) by simp
  have init: "?I t" by simp
  from assms have run: "foldM reveal_mine_cell (all_cells t) t = Inr t'"
    by (simp add: reveal_all_mines_def)
  show ?thesis
    by (rule foldM_inv [where I = ?I, OF step init run])
qed

lemma reveal_flags:
  "reveal depth b row col = Some (Inr b') \<Longrightarrow> getitem2 (cell_states b) row col \<noteq> Inr FLAGGED \<Longrightarrow>
   flagged_cells b' = flagged_cells b \<and> flags_placed b' = flags_placed b"
proof (induction depth arbitrary: b row col b')
  case 0
  then show ?case by simp
next
  case (Suc depth)
  show ?case
  proof (cases "game_over b \<or> getitem2 (cell_states b) row col = Inr REVEALED")
    case True
    with Suc.prems have "b' = b" by (auto split: if_splits)
    then show ?thesis by simp
  next
    case False
    with Suc.prems(1) obtain s cs v where s: "getitem2 (cell_states b) row col = Inr s" "s \<noteq> REVEALED"
      and cs: "setitem2 (cell_states b) row col REVEALED = Inr cs"
      and v: "getitem2 (grid b) row col = Inr v"
      and rest: "if v = MINE_VALUE then reveal_all_mines (b\<lparr>cell_states := cs, game_over := True\<rparr>) = Inr b'
         else if v = 0 then visit_neighbours (reveal depth) row col offsets (b\<lparr>cell_states := cs\<rparr>) = Some (Inr b')
         else b' = b\<lparr>cell_states := cs\<rparr>"
      by (auto simp: Let_def split: if_splits sum.splits)
    let ?b1 = "b\<lparr>cell_states := cs\<rparr>"
    from s Suc.prems(2) have "s \<noteq> FLAGGED" by simp
    with flagged_update [OF s(1) cs, of ?b1] have 1: "flagged_cells ?b1 = flagged_cells b"
      by simp
    have "flagged_cells b' = flagged_cells ?b1 \<and> flags_placed b' = flags_placed ?b1"
    proof (cases "v = MINE_VALUE")
      case True
      with rest have "reveal_all_mines (?b1\<lparr>game_over := True\<rparr>) = Inr b'" by simp
      from reveal_all_mines_flags [OF this] show ?thesis by (simp add: flagged_cells_def)
    next
      case nm: False
      show ?thesis
      proof (cases "v = 0")
        case True
        with nm rest have vis: "visit_neighbours (reveal depth) row col offsets ?b1 = Some (Inr b')"
          by simp
        have "True \<and> (flagged_cells b' = flagged_cells ?b1 \<and> flags_placed b' = flags_placed ?b1)"
          by (rule visit_neighbours_rel [where I = "\<lambda>_. True"
                and R = "\<lambda>a b. flagged_cells b = flagged_cells a \<and> flags_placed b = flags_placed a"
                and rec = "reveal depth", OF _ _ _ _ vis])
            (use Suc.IH in auto)
        then show ?thesis by simp
      next
        case False
        with nm rest show ?thesis by simp
      qed
    qed
    with 1 show ?thesis by simp
  qed
qed

lemma flag_mine_cell_flags_ok:
  assumes "flag_mine_cell x t = Inr t'" "flags_ok t"
  shows "flags_ok t'"
proof (cases x)
  case (Pair r c)
  from assms(1) consider "t' = t"
    | cs where "getitem2 (cell_states t) r c = Inr HIDDEN"
        "setitem2 (cell_states t) r c FLAGGED = Inr cs"
        "t' = t\<lparr>cell_states := cs, flags_placed := flags_placed t + 1\<rparr>"
    using Pair by (auto simp: flag_mine_cell_def split: sum.splits if_splits)
  then show ?thesis
  proof cases
    case 1
    with assms(2) show ?thesis by simp
  next
    case 2
    from flagged_update [OF 2(1,2), of t'] 2(3) assms(2) show ?thesis
      by (simp add: flags_ok_def)
  qed
qed

lemma check_win_flags_ok:
  assumes "check_win b = Inr b'" "flags_ok b"
  shows "flags_ok b'"
proof (cases "foldM (count_revealed_cell b) (all_cells b) 0")
  case (Inl e)
  with assms(1) show ?thesis by (simp add: check_win_def)
next
  case (Inr n)
  show ?thesis
  proof (cases "n = rows b * cols b - mines b")
    case True
    with assms(1) Inr
    have 2: "foldM flag_mine_cell (all_cells b) (b\<lparr>game_won := True, game_over := True\<rparr>) = Inr b'"
      by (simp add: check_win_def)
    have "flags_ok (b\<lparr>game_won := True, game_over := True\<rparr>)"
      using assms(2) by (simp add: flags_ok_def flagged_cells_def)
    from foldM_inv [where I = flags_ok and f = flag_mine_cell, OF flag_mine_cell_flags_ok this 2]
    show ?thesis .
  next
    case False
    with assms Inr show ?thesis by (simp add: check_win_def)
  qed
qed

lemma place_loop_same_cells:
  "place_loop b safe n p samples = Some (Inr b') \<Longrightarrow> same_cells b b'"
proof (induction b safe n p samples rule: place_loop.induct)
  case (1 b safe n p)
  then show ?case by (simp add: same_cells_def split: if_splits)
next
  case (2 b safe n p row col rest)
  show ?case
  proof (cases "p < n")
    case False
    with "2.prems" show ?thesis by (simp add: same_cells_def)
  next
    case True
    with "2.prems" have nz: "\<not> (rows b - 1 < 0 \<or> cols b - 1 < 0)"
      by (auto split: if_splits)
    show ?thesis
    proof (cases "(row, col) \<notin> mines_location b \<and> (row, col) \<notin> safe")
      case free: True
      with True nz "2.prems" obtain g where g: "setitem2 (grid b) row col MINE_VALUE = Inr g"
        and r: "place_loop (b\<lparr>mines_location := insert (row, col) (mines_location b), grid := g\<rparr>)
                  safe n (p + 1) rest = Some (Inr b')"
        by (auto split: sum.splits)
      from "2.IH"(1) [OF True nz free g r] show ?thesis
        by (simp add: same_cells_def)
    next
      case False
      with True nz "2.prems" have "place_loop b safe n p rest = Some (Inr b')"
        by auto
      from "2.IH"(2) [OF True nz False this] show ?thesis .
    qed
  qed
qed

lemma place_mines_same_cells:
  assumes "place_mines b r c samples = Some (Inr b')"
  shows "same_cells b b'"
proof -
  let ?b0 = "b\<lparr>mines_location := {}\<rparr>"
  let ?safe = "safe_zone ?b0 r c"
  let ?n = "min (mines ?b0) (rows ?b0 * cols ?b0 - int (card ?safe))"
  from assms have "(case place_loop ?b0 ?safe ?n 0 samples of
           None \<Rightarrow> None
         | Some (Inl e) \<Rightarrow> Some (Inl e)
         | Some (Inr b1) \<Rightarrow> Some (Inr (b1\<lparr>mines := ?n\<rparr>))) = Some (Inr b')"
    unfolding place_mines_def Let_def .
  then obtain b1 where 1: "place_loop ?b0 ?safe ?n 0 samples = Some (Inr b1)"
    and b': "b' = b1\<lparr>mines := ?n\<rparr>"
    by (cases "place_loop ?b0 ?safe ?n 0 samples") (auto split: sum.splits)
  from place_loop_same_cells [OF 1] b' show ?thesis
    by (simp add: same_cells_def)
qed

lemma calculate_cell_same_cells: "calculate_cell x t = Inr t' \<Longrightarrow> same_cells t t'"
  by (cases x) (auto simp: calculate_cell_def same_cells_def split: sum.splits if_splits)

lemma same_cells_trans: "same_cells a b \<Longrightarrow> same_cells b c \<Longrightarrow> same_cells a c"
  by (simp add: same_cells_def)

lemma calculate_adjacent_mines_same_cells:
  assumes "calculate_adjacent_mines b = Inr b'"
  shows "same_cells b b'"
proof -
  have step: "same_cells b s'" if "same_cells b s" "calculate_cell x s = Inr s'" for x s s'
    using that(1) calculate_cell_same_cells [OF that(2)] by (rule same_cells_trans)
  have init: "same_cells b b"
    by (simp add: same_cells_def)
  from assms have run: "foldM calculate_cell (all_cells b) b = Inr b'"
    by (simp add: calculate_adjacent_mines_def)
  show ?thesis
    by (rule foldM_inv [where I = "same_cells b", OF step init run])
qed


lemma left_click_prepare:
  assumes "left_click depth samples b row col = Some (Inr b')"
  obtains b3 where "same_cells b b3"
    and "(getitem2 (cell_states b3) row col = Inr FLAGGED \<and> b' = b3)
       \<or> (getitem2 (cell_states b3) row col \<noteq> Inr FLAGGED \<and> reveal depth b3 row col = Some (Inr b'))"
proof -
  from assms obtain b3 where
    pre: "(if first_click b then
              (case place_mines b row col samples of
                 None \<Rightarrow> None
               | Some (Inl e) \<Rightarrow> Some (Inl e)
               | Some (Inr b1) \<Rightarrow>
                   (case calculate_adjacent_mines b1 of
                      Inl e \<Rightarrow> Some (Inl e)
                    | Inr b2 \<Rightarrow> Some (Inr (b2\<lparr>first_click := False\<rparr>))))
            else Some (Inr b)) = Some (Inr b3)"
    and post: "(case getitem2 (cell_states b3) row col of
             Inl e \<Rightarrow> Some (Inl e)
           | Inr s \<Rightarrow> if s \<noteq> FLAGGED then reveal depth b3 row col else Some (Inr b3)) = Some (Inr b')"
    unfolding left_click_def by (auto split: option.splits sum.splits)
  have same: "same_cells b b3"
  proof (cases "first_click b")
    case True
    with pre obtain b1 b2 where "place_mines b row col samples = Some (Inr b1)"
      "calculate_adjacent_mines b1 = Inr b2" "b3 = b2\<lparr>first_click := False\<rparr>"
      by (auto split: option.splits sum.splits)
    with place_mines_same_cells [of b row col samples b1] calculate_adjacent_mines_same_cells [of b1 b2]
    show ?thesis by (simp add: same_cells_def)
  next
    case False
    with pre show ?thesis by (simp add: same_cells_def)
  qed
  from post have "(getitem2 (cell_states b3) row col = Inr FLAGGED \<and> b' = b3)
       \<or> (getitem2 (cell_states b3) row col \<noteq> Inr FLAGGED \<and> reveal depth b3 row col = Some (Inr b'))"
    by (auto split: sum.splits if_splits)
  with same show ?thesis by (rule that)
qed

lemma left_click_flags_ok:
  assumes "left_click depth samples b row col = Some (Inr b')" "flags_ok b"
  shows "flags_ok b'"
proof -
  from assms(1) obtain b3 where same: "same_cells b b3"
    and alt: "(getitem2 (cell_states b3) row col = Inr FLAGGED \<and> b' = b3)
       \<or> (getitem2 (cell_states b3) row col \<noteq> Inr FLAGGED \<and> reveal depth b3 row col = Some (Inr b'))"
    by (rule left_click_prepare)
  from same assms(2) have 3: "flags_ok b3"
    by (simp add: same_cells_def flags_ok_def flagged_cells_def)
  from alt show ?thesis
  proof
    assume "getitem2 (cell_states b3) row col = Inr FLAGGED \<and> b' = b3"
    with 3 show ?thesis by simp
  next
    assume "getitem2 (cell_states b3) row col \<noteq> Inr FLAGGED \<and> reveal depth b3 row col = Some (Inr b')"
    then have "flagged_cells b' = flagged_cells b3 \<and> flags_placed b' = flags_placed b3"
      using reveal_flags by blast
    with 3 show ?thesis by (simp add: flags_ok_def)
  qed
qed

lemma handle_click_cases:
  assumes hc: "handle_click depth samples board_x board_y b mouse_pos button = Some (Inr b')"
    and row: "row = (snd mouse_pos - board_y) div cell_size b"
    and col: "col = (fst mouse_pos - board_x) div cell_size b"
  shows "b' = b \<or>
    (\<not> game_over b \<and> \<not> game_won b \<and> in_bounds b row col \<and>
     (\<exists>b1. (if button = 1 then left_click depth samples b row col
            else if button = 3 then Some (right_click b row col) else Some (Inr b)) = Some (Inr b1)
        \<and> (if game_over b1 then b' = b1 else check_win b1 = Inr b')))"
proof (cases "game_over b \<or> game_won b")
  case True
  with hc show ?thesis by (simp add: handle_click_def)
next
  case ng: False
  show ?thesis
  proof (cases "cell_size b = 0")
    case True
    with ng hc show ?thesis by (simp add: handle_click_def)
  next
    case nz: False
    show ?thesis
    proof (cases "in_bounds b row col")
      case False
      with ng nz hc show ?thesis
        by (simp add: handle_click_def Let_def row [symmetric] col [symmetric])
    next
      case True
      define act where "act = (if button = 1 then left_click depth samples b row col
            else if button = 3 then Some (right_click b row col) else Some (Inr b))"
      from ng nz True hc
      have *: "(case act of None \<Rightarrow> None | Some (Inl e) \<Rightarrow> Some (Inl e)
           | Some (Inr b1) \<Rightarrow> if \<not> game_over b1 then Some (check_win b1) else Some (Inr b1))
           = Some (Inr b')"
        by (simp add: handle_click_def Let_def row [symmetric] col [symmetric] act_def)
      then obtain b1 where b1: "act = Some (Inr b1)"
        by (cases act) (auto split: sum.splits)
      with * have "if game_over b1 then b' = b1 else check_win b1 = Inr b'"
        by (simp split: if_splits)
      with b1 ng True show ?thesis
        unfolding act_def by blast
    qed
  qed
qed

lemma handle_click_flags_ok:
  assumes "handle_click depth samples board_x board_y b mouse_pos button = Some (Inr b')" "flags_ok b"
  shows "flags_ok b'"
proof -
  define col where "col = (fst mouse_pos - board_x) div cell_size b"
  define row where "row = (snd mouse_pos - board_y) div cell_size b"
  from handle_click_cases [OF assms(1) row_def col_def]
  consider (same) "b' = b"
    | (act) b1 where
       "(if button = 1 then left_click depth samples b row col
         else if button = 3 then Some (right_click b row col) else Some (Inr b)) = Some (Inr b1)"
       "if game_over b1 then b' = b1 else check_win b1 = Inr b'"
    by blast
  then show ?thesis
  proof cases
    case same
    with assms(2) show ?thesis by simp
  next
    case (act b1)
    have 1: "flags_ok b1"
    proof (cases "button = 1")
      case True
      with act(1) have "left_click depth samples b row col = Some (Inr b1)" by simp
      from left_click_flags_ok [OF this assms(2)] show ?thesis .
    next
      case False
      with act(1) have "b1 = b \<or> toggle_flag b row col = Inr b1"
        by (auto simp: right_click_def split: if_splits sum.splits)
      then show ?thesis
        using assms(2) toggle_flag_flags_ok by blast
    qed
    from act(2) have "b' = b1 \<or> check_win b1 = Inr b'"
      by (simp split: if_splits)
    then show ?thesis
      using 1 check_win_flags_ok by blast
  qed
qed

lemma no_flags_all_hidden:
  "filter (\<lambda>s. s = FLAGGED) (concat (map (\<lambda>_. map (\<lambda>_. HIDDEN) xs) ys)) = []"
  by (induction ys) (simp_all add: filter_empty_conv)

lemma flags_ok_new: "flags_ok (Board_init r c m)"
  by (simp add: flags_ok_def flagged_cells_def Board_init_def no_flags_all_hidden)

lemma flags_ok_reset: "flags_ok (reset b)"
  by (simp add: flags_ok_def flagged_cells_def reset_def Let_def no_flags_all_hidden)

text \<open>
  C2, as the code has it: in every board that arises from a new board by \<open>handle_click\<close>,
  \<open>toggle_flag\<close>, \<open>_check_win\<close>, \<open>_reveal_all_mines\<close>, \<open>reset\<close>, and \<open>reveal\<close> on cells that are not
  \<open>FLAGGED\<close>, \<open>flags_placed\<close> is the number of \<open>FLAGGED\<close> cells.
\<close>

theorem flags_placed_invariant:
  assumes "reachable b"
  shows "flags_placed b = int (flagged_cells b)"
proof -
  from assms have "flags_ok b"
  proof induction
    case (new r c m)
    show ?case by (rule flags_ok_new)
  next
    case (click b depth samples board_x board_y mouse_pos button b')
    then show ?case using handle_click_flags_ok by blast
  next
    case (uncover b row col depth b')
    from reveal_flags [OF uncover(3,2)] uncover(4) show ?case
      by (simp add: flags_ok_def)
  next
    case (flag b row col b')
    then show ?case using toggle_flag_flags_ok by blast
  next
    case (win b b')
    then show ?case using check_win_flags_ok by blast
  next
    case (mines b b')
    from reveal_all_mines_flags [OF mines(2)] mines(3) show ?case
      by (simp add: flags_ok_def)
  next
    case (again b)
    show ?case by (rule flags_ok_reset)
  qed
  then show ?thesis by (simp add: flags_ok_def)
qed

theorem flags_placed_invariant_witness:
  "reachable ((Board_init 1 1 0)\<lparr>cell_states := [[FLAGGED]], flags_placed := 1\<rparr>)
   \<and> flags_placed ((Board_init 1 1 0)\<lparr>cell_states := [[FLAGGED]], flags_placed := 1\<rparr>)
     = int (flagged_cells ((Board_init 1 1 0)\<lparr>cell_states := [[FLAGGED]], flags_placed := 1\<rparr>))"
proof -
  have "toggle_flag (Board_init 1 1 0) 0 0 = Inr ((Board_init 1 1 0)\<lparr>cell_states := [[FLAGGED]], flags_placed := 1\<rparr>)"
    by (simp add: toggle_flag_def eval_defs)
  from reachable.flag [OF reachable.new this]
  have r: "reachable ((Board_init 1 1 0)\<lparr>cell_states := [[FLAGGED]], flags_placed := 1\<rparr>)" .
  from flags_placed_invariant [OF r] r show ?thesis by blast
qed

text \<open>
  C2 as stated fails when \<open>reveal\<close> is called on a flagged cell: flag the only cell of a new
  board with one cell, then reveal it; \<open>flags_placed\<close> is still 1 and no cell is flagged.
\<close>

theorem reveal_flagged_counterexample:
  "toggle_flag (Board_init 1 1 0) 0 0
     = Inr ((Board_init 1 1 0)\<lparr>cell_states := [[FLAGGED]], flags_placed := 1\<rparr>)
   \<and> reveal 1 ((Board_init 1 1 0)\<lparr>cell_states := [[FLAGGED]], flags_placed := 1\<rparr>) 0 0
     = Some (Inr ((Board_init 1 1 0)\<lparr>cell_states := [[REVEALED]], flags_placed := 1\<rparr>))
   \<and> flags_placed ((Board_init 1 1 0)\<lparr>cell_states := [[REVEALED]], flags_placed := 1\<rparr>) = 1
   \<and> flagged_cells ((Board_init 1 1 0)\<lparr>cell_states := [[REVEALED]], flags_placed := 1\<rparr>) = 0"
  by (simp add: toggle_flag_def flagged_cells_def eval_defs offsets_eval)

section \<open>What \<open>reveal\<close> changes\<close>

lemma uncoversI:
  assumes "b' = b\<lparr>cell_states := cs, game_over := go\<rparr>" "shape cs (rows b) (cols b)"
    and "game_over b \<Longrightarrow> go"
    and "\<And>r c. in_bounds b r c \<Longrightarrow>
           cell_at cs r c = state_of b r c \<or> (cell_at cs r c = REVEALED \<and> state_of b r c = HIDDEN)"
  shows "uncovers b b'"
  unfolding uncovers_def using assms by blast

lemma uncovers_fields:
  assumes "uncovers b b'"
  shows "rows b' = rows b" "cols b' = cols b" "grid b' = grid b" "mines b' = mines b"
    "flags_placed b' = flags_placed b" "mines_location b' = mines_location b"
    "first_click b' = first_click b" "game_won b' = game_won b" "cell_size b' = cell_size b"
    "shape (cell_states b') (rows b) (cols b)"
    "b' = b\<lparr>cell_states := cell_states b', game_over := game_over b'\<rparr>"
  using assms unfolding uncovers_def by auto

lemma uncovers_game_over: "uncovers b b' \<Longrightarrow> game_over b \<Longrightarrow> game_over b'"
  unfolding uncovers_def by auto

lemma uncovers_state:
  assumes "uncovers b b'" "in_bounds b r c"
  shows "state_of b' r c = state_of b r c \<or> (state_of b' r c = REVEALED \<and> state_of b r c = HIDDEN)"
proof -
  from assms(1) obtain cs go where b': "b' = b\<lparr>cell_states := cs, game_over := go\<rparr>"
    and at: "\<forall>r c. in_bounds b r c \<longrightarrow>
           cell_at cs r c = state_of b r c \<or> (cell_at cs r c = REVEALED \<and> state_of b r c = HIDDEN)"
    unfolding uncovers_def by blast
  from at assms(2) have "cell_at cs r c = state_of b r c \<or> (cell_at cs r c = REVEALED \<and> state_of b r c = HIDDEN)"
    by blast
  then show ?thesis by (simp add: b' state_of_def)
qed

lemma uncovers_in_bounds: "uncovers b b' \<Longrightarrow> in_bounds b' r c = in_bounds b r c"
  by (simp add: in_bounds_def uncovers_fields)

lemma uncovers_is_mine: "uncovers b b' \<Longrightarrow> is_mine b' r c = is_mine b r c"
  by (simp add: is_mine_def uncovers_fields)

lemma uncovers_wf: "wf_board b \<Longrightarrow> uncovers b b' \<Longrightarrow> wf_board b'"
  by (simp add: wf_board_def uncovers_fields)

lemma uncovers_refl: "wf_board b \<Longrightarrow> uncovers b b"
  by (rule uncoversI [where cs = "cell_states b" and go = "game_over b"])
    (simp_all add: wf_board_def state_of_def)

lemma uncovers_trans:
  assumes ab: "uncovers a b" and bc: "uncovers b c"
  shows "uncovers a c"
proof (rule uncoversI [where cs = "cell_states c" and go = "game_over c"])
  have "c = b\<lparr>cell_states := cell_states c, game_over := game_over c\<rparr>"
    by (rule uncovers_fields(11) [OF bc])
  also have "b = a\<lparr>cell_states := cell_states b, game_over := game_over b\<rparr>"
    by (rule uncovers_fields(11) [OF ab])
  finally show "c = a\<lparr>cell_states := cell_states c, game_over := game_over c\<rparr>"
    by simp
  show "shape (cell_states c) (rows a) (cols a)"
    using uncovers_fields(10) [OF bc] uncovers_fields(1,2) [OF ab] by simp
  show "game_over c" if "game_over a"
    using that ab bc by (blast intro: uncovers_game_over)
  show "cell_at (cell_states c) r c' = state_of a r c' \<or>
        (cell_at (cell_states c) r c' = REVEALED \<and> state_of a r c' = HIDDEN)"
    if "in_bounds a r c'" for r c'
  proof -
    from that have "in_bounds b r c'" by (simp add: uncovers_in_bounds [OF ab])
    from uncovers_state [OF ab that] uncovers_state [OF bc this]
    show ?thesis by (auto simp: state_of_def)
  qed
qed

lemma uncovers_set_cell:
  assumes wf: "wf_board b" and inb: "in_bounds b row col" and hid: "state_of b row col = HIDDEN"
  shows "uncovers b (b\<lparr>cell_states := cell_upd (cell_states b) row col REVEALED\<rparr>)"
proof (rule uncoversI [where cs = "cell_upd (cell_states b) row col REVEALED" and go = "game_over b"])
  have sh: "shape (cell_states b) (rows b) (cols b)"
    using wf by (simp add: wf_board_def)
  have rng: "0 \<le> row" "row < rows b" "0 \<le> col" "col < cols b"
    using inb by (simp_all add: in_bounds_def)
  show "shape (cell_upd (cell_states b) row col REVEALED) (rows b) (cols b)"
    using sh by (rule shape_cell_upd)
  show "cell_at (cell_upd (cell_states b) row col REVEALED) r c = state_of b r c \<or>
        (cell_at (cell_upd (cell_states b) row col REVEALED) r c = REVEALED \<and> state_of b r c = HIDDEN)"
    if "in_bounds b r c" for r c
  proof -
    from that have "0 \<le> r" "0 \<le> c" by (simp_all add: in_bounds_def)
    from cell_at_cell_upd [OF sh rng this, of REVEALED] hid show ?thesis
      by (auto simp: state_of_def)
  qed
qed simp_all

lemma uncovers_set_game_over: "wf_board b \<Longrightarrow> uncovers b (b\<lparr>game_over := True\<rparr>)"
  by (rule uncoversI [where cs = "cell_states b" and go = True])
    (simp_all add: wf_board_def state_of_def)

lemma reveal_all_mines_uncovers:
  assumes wf: "wf_board b"
  shows "\<exists>b'. reveal_all_mines b = Inr b' \<and> uncovers b b'"
proof -
  from reveal_all_mines_result [OF wf]
  obtain cs where res: "reveal_all_mines b = Inr (b\<lparr>cell_states := cs\<rparr>)"
    and sh: "shape cs (rows b) (cols b)"
    and at: "\<forall>r c. in_bounds b r c \<longrightarrow>
        cell_at cs r c =
          (if is_mine b r c \<and> state_of b r c \<noteq> FLAGGED then REVEALED else state_of b r c)"
    by blast
  have "uncovers b (b\<lparr>cell_states := cs\<rparr>)"
  proof (rule uncoversI [where cs = cs and go = "game_over b"])
    show "cell_at cs r c = state_of b r c \<or> (cell_at cs r c = REVEALED \<and> state_of b r c = HIDDEN)"
      if "in_bounds b r c" for r c
      using at that by (cases "state_of b r c") auto
  qed (simp_all add: sh)
  with res show ?thesis by blast
qed

lemma visit_neighbours_skip:
  assumes "(i = 0 \<and> j = 0) \<or> \<not> in_bounds b (row + i) (col + j)
       \<or> (\<exists>s. getitem2 (cell_states b) (row + i) (col + j) = Inr s \<and> s \<noteq> HIDDEN)"
  shows "visit_neighbours rec row col ((i, j) # os) b = visit_neighbours rec row col os b"
  using assms by (auto simp: Let_def)

lemma visit_neighbours_call:
  assumes "\<not> (i = 0 \<and> j = 0)" "in_bounds b (row + i) (col + j)"
    and "getitem2 (cell_states b) (row + i) (col + j) = Inr HIDDEN"
  shows "visit_neighbours rec row col ((i, j) # os) b =
     (case rec b (row + i) (col + j) of
        None \<Rightarrow> None
      | Some (Inl e) \<Rightarrow> Some (Inl e)
      | Some (Inr b') \<Rightarrow> visit_neighbours rec row col os b')"
  using assms by (auto simp: Let_def)

lemma visit_neighbours_ok:
  assumes rec: "\<And>b r c res. I b \<Longrightarrow> in_bounds b r c \<Longrightarrow> getitem2 (cell_states b) r c = Inr HIDDEN
        \<Longrightarrow> rec b r c = Some res \<Longrightarrow> \<exists>b'. res = Inr b' \<and> I b'"
    and get: "\<And>b r c. I b \<Longrightarrow> in_bounds b r c \<Longrightarrow> \<exists>s. getitem2 (cell_states b) r c = Inr s"
  shows "I b \<Longrightarrow> visit_neighbours rec row col os b = Some res \<Longrightarrow> \<exists>b'. res = Inr b'"
proof (induction os arbitrary: b)
  case Nil
  then show ?case by auto
next
  case (Cons x os)
  obtain i j where x: "x = (i, j)" by (cases x)
  show ?case
  proof (cases "\<not> (i = 0 \<and> j = 0) \<and> in_bounds b (row + i) (col + j)")
    case False
    then have "visit_neighbours rec row col ((i, j) # os) b = visit_neighbours rec row col os b"
      by (intro visit_neighbours_skip) blast
    with Cons.prems(2) x have "visit_neighbours rec row col os b = Some res" by simp
    from Cons.IH [OF Cons.prems(1) this] show ?thesis .
  next
    case True
    from get [OF Cons.prems(1)] True
    obtain s where s: "getitem2 (cell_states b) (row + i) (col + j) = Inr s" by blast
    show ?thesis
    proof (cases "s = HIDDEN")
      case False
      with s have "visit_neighbours rec row col ((i, j) # os) b = visit_neighbours rec row col os b"
        by (intro visit_neighbours_skip) blast
      with Cons.prems(2) x have "visit_neighbours rec row col os b = Some res" by simp
      from Cons.IH [OF Cons.prems(1) this] show ?thesis .
    next
      case hid: True
      from True s hid have call: "visit_neighbours rec row col ((i, j) # os) b =
         (case rec b (row + i) (col + j) of
            None \<Rightarrow> None
          | Some (Inl e) \<Rightarrow> Some (Inl e)
          | Some (Inr b') \<Rightarrow> visit_neighbours rec row col os b')"
        by (intro visit_neighbours_call) simp_all
      show ?thesis
      proof (cases "rec b (row + i) (col + j)")
        case None
        with Cons.prems(2) x call show ?thesis by simp
      next
        case (Some res1)
        from True s hid have "in_bounds b (row + i) (col + j)"
          "getitem2 (cell_states b) (row + i) (col + j) = Inr HIDDEN" by simp_all
        from rec [OF Cons.prems(1) this Some]
        obtain b1 where b1: "res1 = Inr b1" "I b1" by blast
        with Cons.prems(2) x call Some
        have "visit_neighbours rec row col os b1 = Some res" by simp
        from Cons.IH [OF b1(2) this] show ?thesis .
      qed
    qed
  qed
qed

lemma reveal_uncovers:
  "wf_board b \<Longrightarrow> in_bounds b row col \<Longrightarrow> state_of b row col \<noteq> FLAGGED \<Longrightarrow>
   reveal depth b row col = Some res \<Longrightarrow> \<exists>b'. res = Inr b' \<and> uncovers b b'"
proof (induction depth arbitrary: b row col res)
  case 0
  then show ?case by simp
next
  case (Suc depth)
  note wf = Suc.prems(1) and inb = Suc.prems(2)
  note io = wf_board_bounds [OF wf inb]
  show ?case
  proof (cases "game_over b \<or> state_of b row col = REVEALED")
    case True
    with Suc.prems(4) io have "res = Inr b"
      by (auto simp: state_of_def split: if_splits)
    with uncovers_refl [OF wf] show ?thesis by simp
  next
    case False
    with Suc.prems(3) have hid: "state_of b row col = HIDDEN"
      by (cases "state_of b row col") auto
    let ?b1 = "b\<lparr>cell_states := cell_upd (cell_states b) row col REVEALED\<rparr>"
    let ?v = "cell_at (grid b) row col"
    have u1: "uncovers b ?b1"
      by (rule uncovers_set_cell [OF wf inb hid])
    have wf1: "wf_board ?b1"
      by (rule uncovers_wf [OF wf u1])
    have body: "(if ?v = MINE_VALUE then Some (reveal_all_mines (?b1\<lparr>game_over := True\<rparr>))
        else if ?v = 0 then visit_neighbours (reveal depth) row col offsets ?b1
        else Some (Inr ?b1)) = Some res"
      using Suc.prems(4) False io hid by (simp add: state_of_def Let_def)
    show ?thesis
    proof (cases "?v = MINE_VALUE")
      case True
      have wf2: "wf_board (?b1\<lparr>game_over := True\<rparr>)"
        using wf1 by (simp add: wf_board_def)
      from reveal_all_mines_uncovers [OF wf2]
      obtain b' where b': "reveal_all_mines (?b1\<lparr>game_over := True\<rparr>) = Inr b'"
        "uncovers (?b1\<lparr>game_over := True\<rparr>) b'" by blast
      from u1 uncovers_set_game_over [OF wf1] b'(2) have "uncovers b b'"
        by (blast intro: uncovers_trans)
      with body True b'(1) show ?thesis by auto
    next
      case nm: False
      show ?thesis
      proof (cases "?v = 0")
        case False
        with body nm u1 show ?thesis by auto
      next
        case True
        with body nm have vis: "visit_neighbours (reveal depth) row col offsets ?b1 = Some res"
          by simp
        have rec: "\<exists>t'. res' = Inr t' \<and> wf_board t' \<and> uncovers t t'"
          if "wf_board t" "in_bounds t r c" "getitem2 (cell_states t) r c = Inr HIDDEN"
            "reveal depth t r c = Some res'" for t r c res'
        proof -
          from wf_board_bounds(1) [OF that(1,2)] that(3) have "state_of t r c \<noteq> FLAGGED"
            by (simp add: state_of_def)
          from Suc.IH [OF that(1,2) this that(4)] obtain t' where "res' = Inr t'" "uncovers t t'"
            by blast
          with uncovers_wf [OF that(1)] show ?thesis by blast
        qed
        have "\<exists>b'. res = Inr b'"
        proof (rule visit_neighbours_ok [where I = wf_board and rec = "reveal depth", OF _ _ wf1 vis])
          show "\<exists>b'. res' = Inr b' \<and> wf_board b'"
            if "wf_board t" "in_bounds t r c" "getitem2 (cell_states t) r c = Inr HIDDEN"
              "reveal depth t r c = Some res'" for t r c res'
            using rec [OF that] by blast
          show "\<exists>s. getitem2 (cell_states t) r c = Inr s" if "wf_board t" "in_bounds t r c" for t r c
            using wf_board_bounds(1) [OF that] by blast
        qed
        then obtain b' where b': "res = Inr b'" by blast
        have "wf_board b' \<and> uncovers ?b1 b'"
        proof (rule visit_neighbours_rel [where I = wf_board and R = uncovers and rec = "reveal depth",
              OF _ _ _ wf1 vis [unfolded b']])
          show "uncovers t t" if "wf_board t" for t
            using that by (rule uncovers_refl)
          show "uncovers x z" if "uncovers x y" "uncovers y z" for x y z
            using that by (rule uncovers_trans)
          show "wf_board t' \<and> uncovers t t'"
            if "wf_board t" "in_bounds t r c" "getitem2 (cell_states t) r c = Inr HIDDEN"
              "reveal depth t r c = Some (Inr t')" for t r c t'
            using rec [OF that] by blast
        qed
        with u1 have "uncovers b b'" by (blast intro: uncovers_trans)
        with b' show ?thesis by blast
      qed
    qed
  qed
qed

text \<open>
  C9: on a well-formed board a recursion budget of \<open>rows * cols\<close> frames (at least one frame, for
  the call itself) is enough for \<open>reveal\<close> to return, for every coordinate; for a coordinate
  inside the grid it returns a board and raises nothing. The number of cells that are not
  \<open>REVEALED\<close> never grows, and it drops whenever the call gets past its guard, which is the
  case for every recursive call, as those are made on \<open>HIDDEN\<close> cells only.
\<close>

theorem reveal_terminates:
  assumes "wf_board b" "0 < depth" "rows b * cols b \<le> int depth"
  shows "\<exists>res. reveal depth b row col = Some res
     \<and> (in_bounds b row col \<longrightarrow> (\<exists>b'. res = Inr b'))
     \<and> (\<forall>b'. res = Inr b' \<longrightarrow>
          unrevealed b' \<le> unrevealed b \<and>
          (\<not> game_over b \<and> getitem2 (cell_states b) row col \<noteq> Inr REVEALED \<longrightarrow>
             unrevealed b' < unrevealed b))"
proof -
  from unrevealed_le [OF assms(1)] assms(3) have "unrevealed b \<le> depth" by simp
  from reveal_total [OF assms(2) this]
  obtain res where res: "reveal depth b row col = Some res" by blast
  have 1: "\<exists>b'. res = Inr b'" if inb: "in_bounds b row col"
  proof (cases "state_of b row col = FLAGGED \<and> \<not> game_over b")
    case False
    show ?thesis
    proof (cases "game_over b")
      case True
      obtain d where d: "depth = Suc d" using assms(2) by (cases depth) auto
      from res True have "res = Inr b" by (simp add: d)
      then show ?thesis by blast
    next
      case ng: False
      with False have "state_of b row col \<noteq> FLAGGED" by simp
      from reveal_uncovers [OF assms(1) inb this res] show ?thesis by blast
    qed
  next
    case True
    obtain d where d: "depth = Suc d" using assms(2) by (cases depth) auto
    let ?b0 = "b\<lparr>cell_states := cell_upd (cell_states b) row col HIDDEN\<rparr>"
    have sh: "shape (cell_states b) (rows b) (cols b)"
      using assms(1) by (simp add: wf_board_def)
    have rng: "0 \<le> row" "row < rows b" "0 \<le> col" "col < cols b"
      using inb by (simp_all add: in_bounds_def)
    have wf0: "wf_board ?b0"
      using assms(1) by (simp add: wf_board_def shape_cell_upd)
    have inb0: "in_bounds ?b0 row col"
      using inb by (simp add: in_bounds_def)
    have st0: "state_of ?b0 row col = HIDDEN"
      using cell_at_cell_upd [OF sh rng rng(1) rng(3), of HIDDEN] by (simp add: state_of_def)
    have upd: "cell_upd (cell_upd (cell_states b) row col HIDDEN) row col REVEALED
        = cell_upd (cell_states b) row col REVEALED"
      by (simp add: cell_upd_def) (cases "nat row < length (cell_states b)", simp_all add: list_update_beyond)
    have "reveal depth ?b0 row col = reveal depth b row col"
      using wf_board_bounds [OF assms(1) inb] wf_board_bounds [OF wf0 inb0] True st0
      by (simp add: d state_of_def upd)
    with res have "reveal depth ?b0 row col = Some res" by simp
    from reveal_uncovers [OF wf0 inb0 _ this] st0 show ?thesis by auto
  qed
  have 2: "unrevealed b' \<le> unrevealed b \<and>
          (\<not> game_over b \<and> getitem2 (cell_states b) row col \<noteq> Inr REVEALED \<longrightarrow>
             unrevealed b' < unrevealed b)" if "res = Inr b'" for b'
    using reveal_unrevealed [of depth b row col b'] res that by simp
  from res 1 2 show ?thesis by blast
qed

theorem reveal_terminates_witness:
  "wf_board mid_board \<and> (0::nat) < 4 \<and> rows mid_board * cols mid_board \<le> int 4
   \<and> (\<exists>res. reveal 4 mid_board 0 3 = Some res
     \<and> (in_bounds mid_board 0 3 \<longrightarrow> (\<exists>b'. res = Inr b'))
     \<and> (\<forall>b'. res = Inr b' \<longrightarrow>
          unrevealed b' \<le> unrevealed mid_board \<and>
          (\<not> game_over mid_board \<and> getitem2 (cell_states mid_board) 0 3 \<noteq> Inr REVEALED \<longrightarrow>
             unrevealed b' < unrevealed mid_board)))"
proof -
  have h: "wf_board mid_board" "(0::nat) < 4" "rows mid_board * cols mid_board \<le> int 4"
    by (simp_all add: mid_board_def eval_defs)
  from reveal_terminates [OF h] h show ?thesis by blast
qed

section \<open>Mine placement\<close>

lemma safe_zone_in_bounds: "(r, c) \<in> safe_zone b fr fc \<Longrightarrow> in_bounds b r c"
  by (auto simp: safe_zone_def)

lemma safe_zone_clear: "safe_zone (b\<lparr>mines_location := ml\<rparr>) fr fc = safe_zone b fr fc"
  by (simp add: safe_zone_def in_bounds_def)

lemma card_safe_zone_le:
  assumes "0 \<le> rows b" "0 \<le> cols b"
  shows "int (card (safe_zone b fr fc)) \<le> rows b * cols b"
proof -
  have "safe_zone b fr fc \<subseteq> set (all_cells b)"
    using safe_zone_in_bounds by (auto simp: set_all_cells)
  then have "card (safe_zone b fr fc) \<le> card (set (all_cells b))"
    by (rule card_mono [rotated]) simp
  also have "\<dots> = length (all_cells b)"
    using distinct_all_cells by (rule distinct_card)
  finally have "int (card (safe_zone b fr fc)) \<le> int (length (all_cells b))" by simp
  with length_all_cells [OF assms] show ?thesis by simp
qed

lemma placement_mono: "placement b0 safe N mls res \<Longrightarrow> mls \<subseteq> mls' \<Longrightarrow> placement b0 safe N mls' res"
  unfolding placement_def by blast

lemma placementI:
  assumes "shape g (rows b0) (cols b0)" "finite ml" "int (card ml) = N" "ml \<inter> safe = {}"
    and "ml \<subseteq> mls"
    and "\<forall>r c. in_bounds b0 r c \<longrightarrow>
           cell_at g r c = (if (r, c) \<in> ml then MINE_VALUE else cell_at (grid b0) r c)"
  shows "placement b0 safe N mls (Inr (b0\<lparr>grid := g, mines_location := ml\<rparr>))"
  unfolding placement_def using assms by blast

text \<open>The state of the placement loop: \<open>ml\<close> are the mines placed so far, \<open>g\<close> is the grid.\<close>

lemma place_loop_result:
  fixes b0 :: board and safe :: "(int \<times> int) set" and N :: int
  assumes b0: "0 < rows b0 \<or> N \<le> 0" "0 < cols b0 \<or> N \<le> 0"
  shows "t = b0\<lparr>grid := g, mines_location := ml\<rparr> \<Longrightarrow> shape g (rows b0) (cols b0) \<Longrightarrow>
    finite ml \<Longrightarrow> int (card ml) = placed \<Longrightarrow> placed \<le> N \<Longrightarrow> ml \<inter> safe = {} \<Longrightarrow>
    (\<forall>r c. in_bounds b0 r c \<longrightarrow>
       cell_at g r c = (if (r, c) \<in> ml then MINE_VALUE else cell_at (grid b0) r c)) \<Longrightarrow>
    (\<forall>(r, c) \<in> set samples. in_bounds b0 r c) \<Longrightarrow>
    (case place_loop t safe N placed samples of
       None \<Rightarrow> placed + int (card (set samples - safe - ml)) < N
     | Some res \<Rightarrow> placement b0 safe N (ml \<union> set samples) res)"
proof (induction samples arbitrary: t g ml placed)
  case Nil
  show ?case
  proof (cases "placed < N")
    case True
    with b0 Nil.prems(4) have "\<not> (rows t - 1 < 0 \<or> cols t - 1 < 0)"
      by (auto simp: Nil.prems(1))
    with True show ?thesis by simp
  next
    case False
    with Nil.prems(5) have "placed = N" by simp
    with Nil.prems have "placement b0 safe N (ml \<union> set []) (Inr t)"
      by (simp add: placementI)
    with False show ?thesis by simp
  qed
next
  case (Cons x samples)
  obtain row col where x: "x = (row, col)" by (cases x)
  show ?case
  proof (cases "placed < N")
    case False
    with Cons.prems(5) have "placed = N" by simp
    with Cons.prems(1-7) have "placement b0 safe N (ml \<union> set (x # samples)) (Inr t)"
      by (auto intro!: placementI)
    with False x show ?thesis by simp
  next
    case True
    with b0 Cons.prems(4) have nz: "\<not> (rows t - 1 < 0 \<or> cols t - 1 < 0)"
      by (auto simp: Cons.prems(1))
    have rest: "\<forall>(r, c) \<in> set samples. in_bounds b0 r c"
      using Cons.prems(8) by simp
    show ?thesis
    proof (cases "(row, col) \<notin> ml \<and> (row, col) \<notin> safe")
      case False
      then have eq: "set (x # samples) - safe - ml = set samples - safe - ml"
        using x by auto
      have step: "place_loop t safe N placed (x # samples) = place_loop t safe N placed samples"
        using True nz False x by (auto simp: Cons.prems(1))
      note IH = Cons.IH [OF Cons.prems(1-7) rest]
      show ?thesis
      proof (cases "place_loop t safe N placed samples")
        case None
        with IH eq step show ?thesis by simp
      next
        case (Some res)
        with IH have "placement b0 safe N (ml \<union> set samples) res" by simp
        then have "placement b0 safe N (ml \<union> set (x # samples)) res"
          by (rule placement_mono) auto
        with Some step show ?thesis by simp
      qed
    next
      case free: True
      have inb: "in_bounds b0 row col"
        using Cons.prems(8) x by simp
      then have rng: "0 \<le> row" "row < rows b0" "0 \<le> col" "col < cols b0"
        by (simp_all add: in_bounds_def)
      let ?g1 = "cell_upd g row col MINE_VALUE"
      let ?ml1 = "insert (row, col) ml"
      let ?t1 = "b0\<lparr>grid := ?g1, mines_location := ?ml1\<rparr>"
      have t1: "b0\<lparr>mines_location := ?ml1, grid := ?g1\<rparr> = ?t1"
        by (rule board.equality) simp_all
      have step: "place_loop t safe N placed (x # samples) = place_loop ?t1 safe N (placed + 1) samples"
        using True nz free x setitem2_in [OF Cons.prems(2) rng, of MINE_VALUE]
        by (simp add: Cons.prems(1) t1)
      have 1: "shape ?g1 (rows b0) (cols b0)"
        using Cons.prems(2) by (rule shape_cell_upd)
      have 2: "finite ?ml1" using Cons.prems(3) by simp
      have 3: "int (card ?ml1) = placed + 1"
        using Cons.prems(3,4) free by simp
      have 4: "placed + 1 \<le> N" using True by simp
      have 5: "?ml1 \<inter> safe = {}" using Cons.prems(6) free by simp
      have 6: "\<forall>r c. in_bounds b0 r c \<longrightarrow>
          cell_at ?g1 r c = (if (r, c) \<in> ?ml1 then MINE_VALUE else cell_at (grid b0) r c)"
      proof (intro allI impI)
        fix r c assume inb': "in_bounds b0 r c"
        then have "0 \<le> r" "0 \<le> c" by (simp_all add: in_bounds_def)
        from cell_at_cell_upd [OF Cons.prems(2) rng this, of MINE_VALUE] Cons.prems(7) inb'
        show "cell_at ?g1 r c = (if (r, c) \<in> ?ml1 then MINE_VALUE else cell_at (grid b0) r c)"
          by auto
      qed
      have "set (x # samples) - safe - ml = insert (row, col) (set samples - safe - ?ml1)"
        using free x by auto
      moreover have "(row, col) \<notin> set samples - safe - ?ml1" by simp
      ultimately have card: "int (card (set (x # samples) - safe - ml))
          = 1 + int (card (set samples - safe - ?ml1))"
        by simp
      note IH = Cons.IH [OF refl 1 2 3 4 5 6 rest]
      show ?thesis
      proof (cases "place_loop ?t1 safe N (placed + 1) samples")
        case None
        with IH card step show ?thesis by simp
      next
        case (Some res)
        with IH have "placement b0 safe N (?ml1 \<union> set samples) res" by simp
        then have "placement b0 safe N (ml \<union> set (x # samples)) res"
          by (rule placement_mono) (use x in auto)
        with Some step show ?thesis by simp
      qed
    qed
  qed
qed

text \<open>
  C6: on a well-formed board with a mine count that is not negative, for every first-click
  coordinate and every sequence of samples that \<open>random.randint\<close> can return (positions in the
  grid): the loop of \<open>_place_mines\<close> is still running at the end of the samples exactly when
  these hold fewer than \<open>min(mines, rows * cols - |safe_zone|)\<close> distinct positions outside the
  safe zone; otherwise \<open>_place_mines\<close> returns without raising, with exactly that many distinct
  mines, all among the samples and none in the safe zone, \<open>MINE_VALUE\<close> written at their grid
  cells and at no other cell, and \<open>mines\<close> set to that number.
\<close>

theorem place_mines_result:
  assumes "wf_board b" "0 \<le> mines b" "\<forall>(r, c) \<in> set samples. in_bounds b r c"
  shows "case place_mines b first_click_row first_click_col samples of
       None \<Rightarrow>
         int (card (set samples - safe_zone b first_click_row first_click_col))
           < min (mines b) (rows b * cols b - int (card (safe_zone b first_click_row first_click_col)))
     | Some res \<Rightarrow>
         (\<exists>g ml. res = Inr (b\<lparr>mines := min (mines b)
                      (rows b * cols b - int (card (safe_zone b first_click_row first_click_col))),
                    grid := g, mines_location := ml\<rparr>) \<and>
            shape g (rows b) (cols b) \<and>
            int (card ml) = min (mines b)
                      (rows b * cols b - int (card (safe_zone b first_click_row first_click_col))) \<and>
            ml \<inter> safe_zone b first_click_row first_click_col = {} \<and>
            ml \<subseteq> set samples \<and>
            (\<forall>r c. in_bounds b r c \<longrightarrow>
               cell_at g r c = (if (r, c) \<in> ml then MINE_VALUE else cell_at (grid b) r c)))"
proof -
  let ?b0 = "b\<lparr>mines_location := {}\<rparr>"
  let ?safe = "safe_zone b first_click_row first_click_col"
  let ?N = "min (mines b) (rows b * cols b - int (card ?safe))"
  have dims: "0 \<le> rows b" "0 \<le> cols b" and sh: "shape (grid b) (rows b) (cols b)"
    using assms(1) by (simp_all add: wf_board_def)
  have "?N \<le> rows b * cols b" by simp
  then have "0 < rows b * cols b \<or> ?N \<le> 0" by linarith
  then have pos: "0 < rows ?b0 \<or> ?N \<le> 0" "0 < cols ?b0 \<or> ?N \<le> 0"
    using dims by (auto simp: zero_less_mult_iff)
  have N0: "0 \<le> ?N"
    using assms(2) card_safe_zone_le [OF dims, of first_click_row first_click_col] by simp
  have t: "?b0 = ?b0\<lparr>grid := grid b, mines_location := {}\<rparr>" by simp
  have samples: "\<forall>(r, c) \<in> set samples. in_bounds ?b0 r c"
    using assms(3) by (simp add: in_bounds_def)
  have loop: "case place_loop ?b0 ?safe ?N 0 samples of
       None \<Rightarrow> 0 + int (card (set samples - ?safe - {})) < ?N
     | Some res \<Rightarrow> placement ?b0 ?safe ?N ({} \<union> set samples) res"
    by (rule place_loop_result [OF pos t _ _ _ N0 _ _ samples]) (simp_all add: sh)
  have pm: "place_mines b first_click_row first_click_col samples =
      (case place_loop ?b0 ?safe ?N 0 samples of
         None \<Rightarrow> None
       | Some (Inl e) \<Rightarrow> Some (Inl e)
       | Some (Inr b1) \<Rightarrow> Some (Inr (b1\<lparr>mines := ?N\<rparr>)))"
    by (simp add: place_mines_def Let_def safe_zone_clear cong: option.case_cong sum.case_cong)
  show ?thesis
  proof (cases "place_loop ?b0 ?safe ?N 0 samples")
    case None
    with loop pm show ?thesis by simp
  next
    case (Some res)
    with loop have "placement ?b0 ?safe ?N ({} \<union> set samples) res" by simp
    then obtain g ml where res: "res = Inr (?b0\<lparr>grid := g, mines_location := ml\<rparr>)"
      and props: "shape g (rows b) (cols b)" "int (card ml) = ?N" "ml \<inter> ?safe = {}"
        "ml \<subseteq> set samples"
        "\<forall>r c. in_bounds b r c \<longrightarrow>
               cell_at g r c = (if (r, c) \<in> ml then MINE_VALUE else cell_at (grid b) r c)"
      unfolding placement_def by (auto simp: in_bounds_def)
    have run: "place_mines b first_click_row first_click_col samples =
        Some (Inr (b\<lparr>mines := ?N, grid := g, mines_location := ml\<rparr>))"
      using pm Some res by simp
    have "\<exists>g' ml'. Inr (b\<lparr>mines := ?N, grid := g, mines_location := ml\<rparr>)
          = (Inr (b\<lparr>mines := ?N, grid := g', mines_location := ml'\<rparr>) :: error + board) \<and>
        shape g' (rows b) (cols b) \<and> int (card ml') = ?N \<and> ml' \<inter> ?safe = {} \<and>
        ml' \<subseteq> set samples \<and>
        (\<forall>r c. in_bounds b r c \<longrightarrow>
               cell_at g' r c = (if (r, c) \<in> ml' then MINE_VALUE else cell_at (grid b) r c))"
      using props by (intro exI [of _ g] exI [of _ ml]) simp
    with run show ?thesis by simp
  qed
qed

theorem place_mines_result_witness:
  "wf_board (Board_init 1 4 1) \<and> 0 \<le> mines (Board_init 1 4 1)
   \<and> in_bounds (Board_init 1 4 1) 0 1 \<and> in_bounds (Board_init 1 4 1) 0 2
   \<and> place_mines (Board_init 1 4 1) 0 0 [(0, 1), (0, 2)] = Some (Inr placed_board)
   \<and> (\<exists>g ml. placed_board = (Board_init 1 4 1)\<lparr>mines := min (mines (Board_init 1 4 1))
                      (rows (Board_init 1 4 1) * cols (Board_init 1 4 1)
                         - int (card (safe_zone (Board_init 1 4 1) 0 0))),
                    grid := g, mines_location := ml\<rparr> \<and>
            shape g (rows (Board_init 1 4 1)) (cols (Board_init 1 4 1)) \<and>
            int (card ml) = min (mines (Board_init 1 4 1))
                      (rows (Board_init 1 4 1) * cols (Board_init 1 4 1)
                         - int (card (safe_zone (Board_init 1 4 1) 0 0))) \<and>
            ml \<inter> safe_zone (Board_init 1 4 1) 0 0 = {} \<and>
            ml \<subseteq> set [(0, 1), (0, 2)] \<and>
            (\<forall>r c. in_bounds (Board_init 1 4 1) r c \<longrightarrow>
               cell_at g r c = (if (r, c) \<in> ml then MINE_VALUE
                                else cell_at (grid (Board_init 1 4 1)) r c)))"
proof -
  have h: "wf_board (Board_init 1 4 1)" "0 \<le> mines (Board_init 1 4 1)"
    "\<forall>(r, c) \<in> set [(0, 1), (0, 2)]. in_bounds (Board_init 1 4 1) r c"
    by (simp_all add: eval_defs)
  have inb: "in_bounds (Board_init 1 4 1) 0 1" "in_bounds (Board_init 1 4 1) 0 2"
    by (simp_all add: eval_defs)
  have sz: "safe_zone (Board_init 1 4 1) 0 0 = {(0, 0), (0, 1)}"
    by (auto simp: safe_zone_def offsets_eval Board_init_def in_bounds_def)
  have run: "place_mines (Board_init 1 4 1) 0 0 [(0, 1), (0, 2)] = Some (Inr placed_board)"
    unfolding place_mines_def Let_def safe_zone_clear sz
    by (simp add: placed_board_def eval_defs)
  from place_mines_result [OF h, of 0 0] run
  have "\<exists>g ml. placed_board = (Board_init 1 4 1)\<lparr>mines := min (mines (Board_init 1 4 1))
                      (rows (Board_init 1 4 1) * cols (Board_init 1 4 1)
                         - int (card (safe_zone (Board_init 1 4 1) 0 0))),
                    grid := g, mines_location := ml\<rparr> \<and>
            shape g (rows (Board_init 1 4 1)) (cols (Board_init 1 4 1)) \<and>
            int (card ml) = min (mines (Board_init 1 4 1))
                      (rows (Board_init 1 4 1) * cols (Board_init 1 4 1)
                         - int (card (safe_zone (Board_init 1 4 1) 0 0))) \<and>
            ml \<inter> safe_zone (Board_init 1 4 1) 0 0 = {} \<and>
            ml \<subseteq> set [(0, 1), (0, 2)] \<and>
            (\<forall>r c. in_bounds (Board_init 1 4 1) r c \<longrightarrow>
               cell_at g r c = (if (r, c) \<in> ml then MINE_VALUE
                                else cell_at (grid (Board_init 1 4 1)) r c))"
    by simp
  with h(1,2) inb run show ?thesis by blast
qed

section \<open>Flagged cells\<close>

lemma setitem2_shape:
  assumes "setitem2 xss r c v = Inr yss" "shape xss R C"
  shows "shape yss R C"
proof -
  from assms(1) obtain k j where "yss = xss[k := (xss ! k)[j := v]]"
    by (auto simp: setitem2_def split: sum.splits)
  with assms(2) show ?thesis
    by (cases "k < length xss")
      (auto simp: shape_def list_all_length nth_list_update list_update_beyond)
qed

lemma place_loop_grid_shape:
  "place_loop b safe n p samples = Some (Inr b') \<Longrightarrow> shape (grid b) R C \<Longrightarrow> shape (grid b') R C"
proof (induction b safe n p samples rule: place_loop.induct)
  case (1 b safe n p)
  then show ?case by (simp split: if_splits)
next
  case (2 b safe n p row col rest)
  show ?case
  proof (cases "p < n")
    case False
    with "2.prems" show ?thesis by simp
  next
    case True
    with "2.prems"(1) have nz: "\<not> (rows b - 1 < 0 \<or> cols b - 1 < 0)"
      by (auto split: if_splits)
    show ?thesis
    proof (cases "(row, col) \<notin> mines_location b \<and> (row, col) \<notin> safe")
      case free: True
      with True nz "2.prems"(1) obtain g where g: "setitem2 (grid b) row col MINE_VALUE = Inr g"
        and r: "place_loop (b\<lparr>mines_location := insert (row, col) (mines_location b), grid := g\<rparr>)
                  safe n (p + 1) rest = Some (Inr b')"
        by (auto split: sum.splits)
      from setitem2_shape [OF g "2.prems"(2)]
      have "shape (grid (b\<lparr>mines_location := insert (row, col) (mines_location b), grid := g\<rparr>)) R C"
        by simp
      from "2.IH"(1) [OF True nz free g r this] show ?thesis .
    next
      case False
      with True nz "2.prems"(1) have "place_loop b safe n p rest = Some (Inr b')"
        by auto
      from "2.IH"(2) [OF True nz False this "2.prems"(2)] show ?thesis .
    qed
  qed
qed

lemma place_mines_wf:
  assumes "place_mines b r c samples = Some (Inr b')" "wf_board b"
  shows "wf_board b'"
proof -
  let ?b0 = "b\<lparr>mines_location := {}\<rparr>"
  let ?safe = "safe_zone ?b0 r c"
  let ?n = "min (mines ?b0) (rows ?b0 * cols ?b0 - int (card ?safe))"
  from assms(1) have "(case place_loop ?b0 ?safe ?n 0 samples of
           None \<Rightarrow> None
         | Some (Inl e) \<Rightarrow> Some (Inl e)
         | Some (Inr b1) \<Rightarrow> Some (Inr (b1\<lparr>mines := ?n\<rparr>))) = Some (Inr b')"
    unfolding place_mines_def Let_def .
  then obtain b1 where 1: "place_loop ?b0 ?safe ?n 0 samples = Some (Inr b1)"
    and b': "b' = b1\<lparr>mines := ?n\<rparr>"
    by (cases "place_loop ?b0 ?safe ?n 0 samples") (auto split: sum.splits)
  have "shape (grid ?b0) (rows b) (cols b)"
    using assms(2) by (simp add: wf_board_def)
  from place_loop_grid_shape [OF 1 this] place_loop_same_cells [OF 1] assms(2) b'
  show ?thesis
    by (simp add: wf_board_def same_cells_def)
qed

lemma calculate_adjacent_mines_wf:
  assumes "calculate_adjacent_mines b = Inr b'" "wf_board b"
  shows "wf_board b'"
proof -
  from calculate_cells_result [OF assms(2)] assms(1)
  obtain g where "b' = b\<lparr>grid := g\<rparr>" "shape g (rows b) (cols b)" by auto
  with assms(2) show ?thesis by (simp add: wf_board_def)
qed

lemma left_click_prepare_wf:
  assumes "left_click depth samples b row col = Some (Inr b')" "wf_board b"
  obtains b3 where "same_cells b b3" "wf_board b3"
    and "(getitem2 (cell_states b3) row col = Inr FLAGGED \<and> b' = b3)
       \<or> (getitem2 (cell_states b3) row col \<noteq> Inr FLAGGED \<and> reveal depth b3 row col = Some (Inr b'))"
proof -
  from assms(1) obtain b3 where
    pre: "(if first_click b then
              (case place_mines b row col samples of
                 None \<Rightarrow> None
               | Some (Inl e) \<Rightarrow> Some (Inl e)
               | Some (Inr b1) \<Rightarrow>
                   (case calculate_adjacent_mines b1 of
                      Inl e \<Rightarrow> Some (Inl e)
                    | Inr b2 \<Rightarrow> Some (Inr (b2\<lparr>first_click := False\<rparr>))))
            else Some (Inr b)) = Some (Inr b3)"
    and post: "(case getitem2 (cell_states b3) row col of
             Inl e \<Rightarrow> Some (Inl e)
           | Inr s \<Rightarrow> if s \<noteq> FLAGGED then reveal depth b3 row col else Some (Inr b3)) = Some (Inr b')"
    unfolding left_click_def by (auto split: option.splits sum.splits)
  have same: "same_cells b b3 \<and> wf_board b3"
  proof (cases "first_click b")
    case True
    with pre obtain b1 b2 where 1: "place_mines b row col samples = Some (Inr b1)"
      and 2: "calculate_adjacent_mines b1 = Inr b2" and 3: "b3 = b2\<lparr>first_click := False\<rparr>"
      by (auto split: option.splits sum.splits)
    from place_mines_wf [OF 1 assms(2)] have wf1: "wf_board b1" .
    from calculate_adjacent_mines_wf [OF 2 wf1] 3 have "wf_board b3"
      by (simp add: wf_board_def)
    moreover from place_mines_same_cells [OF 1] calculate_adjacent_mines_same_cells [OF 2] 3
    have "same_cells b b3" by (simp add: same_cells_def)
    ultimately show ?thesis by simp
  next
    case False
    with pre assms(2) show ?thesis by (simp add: same_cells_def)
  qed
  from post have "(getitem2 (cell_states b3) row col = Inr FLAGGED \<and> b' = b3)
       \<or> (getitem2 (cell_states b3) row col \<noteq> Inr FLAGGED \<and> reveal depth b3 row col = Some (Inr b'))"
    by (auto split: sum.splits if_splits)
  with same show ?thesis using that by blast
qed

lemma cell_upd_twice: "cell_upd (cell_upd xss r c v) r c w = cell_upd xss r c w"
  by (cases "nat r < length xss") (simp_all add: cell_upd_def list_update_beyond)

text \<open>A call that gets past the guard of \<open>reveal\<close> does not depend on the state of its target.\<close>

lemma reveal_from_hidden:
  assumes wf: "wf_board b" and inb: "in_bounds b row col"
    and ng: "\<not> game_over b" and nr: "state_of b row col \<noteq> REVEALED"
  shows "reveal depth (b\<lparr>cell_states := cell_upd (cell_states b) row col HIDDEN\<rparr>) row col
       = reveal depth b row col"
proof (cases depth)
  case 0
  then show ?thesis by simp
next
  case (Suc d)
  let ?b0 = "b\<lparr>cell_states := cell_upd (cell_states b) row col HIDDEN\<rparr>"
  have sh: "shape (cell_states b) (rows b) (cols b)"
    using wf by (simp add: wf_board_def)
  have rng: "0 \<le> row" "row < rows b" "0 \<le> col" "col < cols b"
    using inb by (simp_all add: in_bounds_def)
  have wf0: "wf_board ?b0"
    using wf by (simp add: wf_board_def shape_cell_upd)
  have inb0: "in_bounds ?b0 row col"
    using inb by (simp add: in_bounds_def)
  have st0: "cell_at (cell_upd (cell_states b) row col HIDDEN) row col = HIDDEN"
    using cell_at_cell_upd [OF sh rng rng(1) rng(3), of HIDDEN] by simp
  show ?thesis
    using wf_board_bounds [OF wf inb] wf_board_bounds [OF wf0 inb0] ng nr st0
    by (simp add: Suc state_of_def cell_upd_twice)
qed

lemma reveal_other_cells:
  assumes wf: "wf_board b" and inb: "in_bounds b row col"
    and run: "reveal depth b row col = Some (Inr b')"
  shows "wf_board b'" "flags_placed b' = flags_placed b" "grid b' = grid b"
    "rows b' = rows b" "cols b' = cols b"
    and "\<And>r c. in_bounds b r c \<Longrightarrow> (r, c) \<noteq> (row, col) \<Longrightarrow>
       state_of b' r c = state_of b r c \<or> (state_of b' r c = REVEALED \<and> state_of b r c = HIDDEN)"
proof -
  let ?b0 = "b\<lparr>cell_states := cell_upd (cell_states b) row col HIDDEN\<rparr>"
  have sh: "shape (cell_states b) (rows b) (cols b)"
    using wf by (simp add: wf_board_def)
  have rng: "0 \<le> row" "row < rows b" "0 \<le> col" "col < cols b"
    using inb by (simp_all add: in_bounds_def)
  have "\<exists>t. wf_board t \<and> in_bounds t = in_bounds b \<and> flags_placed t = flags_placed b
      \<and> grid t = grid b \<and> rows t = rows b \<and> cols t = cols b
      \<and> (\<forall>r c. in_bounds b r c \<longrightarrow> (r, c) \<noteq> (row, col) \<longrightarrow> state_of t r c = state_of b r c)
      \<and> uncovers t b'"
  proof (cases "game_over b \<or> state_of b row col \<noteq> FLAGGED")
    case True
    have "uncovers b b'"
    proof (cases "game_over b")
      case True
      with run have "b' = b" by (cases depth) simp_all
      with uncovers_refl [OF wf] show ?thesis by simp
    next
      case False
      with True have "state_of b row col \<noteq> FLAGGED" by simp
      from reveal_uncovers [OF wf inb this run] show ?thesis by simp
    qed
    with wf show ?thesis by blast
  next
    case False
    then have ng: "\<not> game_over b" and fl: "state_of b row col = FLAGGED" by simp_all
    have wf0: "wf_board ?b0"
      using wf by (simp add: wf_board_def shape_cell_upd)
    have inb0: "in_bounds ?b0 row col"
      using inb by (simp add: in_bounds_def)
    have st0: "state_of ?b0 r c = (if r = row \<and> c = col then HIDDEN else state_of b r c)"
      if "in_bounds b r c" for r c
      using cell_at_cell_upd [OF sh rng, of r c HIDDEN] that
      by (simp add: state_of_def in_bounds_def)
    from reveal_from_hidden [OF wf inb ng, of depth] fl run
    have "reveal depth ?b0 row col = Some (Inr b')" by simp
    from reveal_uncovers [OF wf0 inb0 _ this] st0 [OF inb] have "uncovers ?b0 b'" by simp
    moreover have "in_bounds ?b0 = in_bounds b"
      by (simp add: in_bounds_def fun_eq_iff)
    moreover have "\<forall>r c. in_bounds b r c \<longrightarrow> (r, c) \<noteq> (row, col) \<longrightarrow> state_of ?b0 r c = state_of b r c"
      using st0 by auto
    ultimately show ?thesis
      using wf0 by (intro exI [of _ ?b0]) simp
  qed
  then obtain t where t: "wf_board t" "in_bounds t = in_bounds b" "flags_placed t = flags_placed b"
    "grid t = grid b" "rows t = rows b" "cols t = cols b"
    "\<forall>r c. in_bounds b r c \<longrightarrow> (r, c) \<noteq> (row, col) \<longrightarrow> state_of t r c = state_of b r c"
    and u: "uncovers t b'" by blast
  show "wf_board b'" using uncovers_wf [OF t(1) u] .
  show "flags_placed b' = flags_placed b" using uncovers_fields(5) [OF u] t(3) by simp
  show "grid b' = grid b" using uncovers_fields(3) [OF u] t(4) by simp
  show "rows b' = rows b" using uncovers_fields(1) [OF u] t(5) by simp
  show "cols b' = cols b" using uncovers_fields(2) [OF u] t(6) by simp
  show "state_of b' r c = state_of b r c \<or> (state_of b' r c = REVEALED \<and> state_of b r c = HIDDEN)"
    if "in_bounds b r c" "(r, c) \<noteq> (row, col)" for r c
  proof -
    from that(1) t(2) have "in_bounds t r c" by simp
    from uncovers_state [OF u this] t(7) that show ?thesis by auto
  qed
qed

text \<open>
  C3, as the code has it: a \<open>FLAGGED\<close> cell inside the grid stays \<open>FLAGGED\<close>, with \<open>flags_placed\<close> as
  it was, when \<open>reveal\<close> is called on any other cell of the grid, whatever cascade that call
  starts; and a left click on the flagged cell through \<open>handle_click\<close> leaves it \<open>FLAGGED\<close>, and
  leaves all cell states and \<open>flags_placed\<close> as they were unless that click ends the game as won.
  The test for \<open>FLAGGED\<close> is in \<open>handle_click\<close>, not in \<open>reveal\<close>.
\<close>

theorem flagged_cell_stays:
  assumes "wf_board b" "in_bounds b r c" "state_of b r c = FLAGGED"
  shows "(\<forall>depth row col b'. in_bounds b row col \<and> (row, col) \<noteq> (r, c) \<and>
            reveal depth b row col = Some (Inr b') \<longrightarrow>
            state_of b' r c = FLAGGED \<and> flags_placed b' = flags_placed b)
       \<and> (\<forall>depth samples board_x board_y mouse_pos b'.
            (snd mouse_pos - board_y) div cell_size b = r \<and>
            (fst mouse_pos - board_x) div cell_size b = c \<and>
            handle_click depth samples board_x board_y b mouse_pos 1 = Some (Inr b') \<longrightarrow>
            state_of b' r c = FLAGGED \<and>
            (\<not> game_won b' \<longrightarrow> cell_states b' = cell_states b \<and> flags_placed b' = flags_placed b))"
proof (intro conjI allI impI)
  fix depth row col b'
  assume a: "in_bounds b row col \<and> (row, col) \<noteq> (r, c) \<and> reveal depth b row col = Some (Inr b')"
  then have inb: "in_bounds b row col" and ne: "(r, c) \<noteq> (row, col)"
    and run: "reveal depth b row col = Some (Inr b')" by auto
  from reveal_other_cells(6) [OF assms(1) inb run assms(2) ne] assms(3)
  show "state_of b' r c = FLAGGED" by auto
  show "flags_placed b' = flags_placed b"
    by (rule reveal_other_cells(2) [OF assms(1) inb run])
next
  fix depth samples board_x board_y mouse_pos b'
  assume a: "(snd mouse_pos - board_y) div cell_size b = r \<and>
            (fst mouse_pos - board_x) div cell_size b = c \<and>
            handle_click depth samples board_x board_y b mouse_pos 1 = Some (Inr b')"
  then have row: "r = (snd mouse_pos - board_y) div cell_size b"
    and col: "c = (fst mouse_pos - board_x) div cell_size b"
    and hc: "handle_click depth samples board_x board_y b mouse_pos 1 = Some (Inr b')" by auto
  have "state_of b' r c = FLAGGED \<and>
      (\<not> game_won b' \<longrightarrow> cell_states b' = cell_states b \<and> flags_placed b' = flags_placed b)"
  proof -
    from handle_click_cases [OF hc row col]
    consider (same) "b' = b"
      | (act) b1 where "\<not> game_over b" "left_click depth samples b r c = Some (Inr b1)"
          "if game_over b1 then b' = b1 else check_win b1 = Inr b'"
      by auto
    then show ?thesis
    proof cases
      case same
      with assms(3) show ?thesis by simp
    next
      case (act b1)
      from act(2) assms(1) obtain b3 where same: "same_cells b b3" and wf3: "wf_board b3"
        and alt: "(getitem2 (cell_states b3) r c = Inr FLAGGED \<and> b1 = b3)
          \<or> (getitem2 (cell_states b3) r c \<noteq> Inr FLAGGED \<and> reveal depth b3 r c = Some (Inr b1))"
        by (rule left_click_prepare_wf)
      have cs3: "cell_states b3 = cell_states b" "flags_placed b3 = flags_placed b"
        "game_over b3 = game_over b"
        using same by (simp_all add: same_cells_def)
      have "getitem2 (cell_states b3) r c = Inr FLAGGED"
        using wf_board_bounds(1) [OF assms(1,2)] assms(3) cs3 by (simp add: state_of_def)
      with alt have b1: "b1 = b3" by simp
      with act(1,3) cs3 have cw: "check_win b3 = Inr b'" by simp
      have inb3: "in_bounds b3 r c"
        using assms(2) same by (simp add: in_bounds_def same_cells_def)
      have st3: "state_of b3 r c = FLAGGED"
        using assms(3) cs3 by (simp add: state_of_def)
      show ?thesis
      proof (cases "int (revealed_non_mines b3) = rows b3 * cols b3 - mines b3")
        case True
        with check_win_effect [OF wf3] cw
        obtain cs where b': "b' = b3\<lparr>cell_states := cs,
              flags_placed := flags_placed b3 + int (hidden_mines b3),
              game_over := True, game_won := True\<rparr>"
          and at: "\<forall>r c. in_bounds b3 r c \<longrightarrow>
               cell_at cs r c =
                 (if is_mine b3 r c \<and> state_of b3 r c = HIDDEN then FLAGGED else state_of b3 r c)"
          by auto
        from at inb3 st3 have "cell_at cs r c = FLAGGED" by simp
        with b' show ?thesis by (simp add: state_of_def)
      next
        case False
        with check_win_effect [OF wf3] cw have "b' = b3" by simp
        with st3 cs3 show ?thesis by simp
      qed
    qed
  qed
  then show "state_of b' r c = FLAGGED"
    and "\<not> game_won b' \<Longrightarrow> cell_states b' = cell_states b"
    and "\<not> game_won b' \<Longrightarrow> flags_placed b' = flags_placed b"
    by simp_all
qed

theorem flagged_cell_stays_witness:
  "wf_board flagged_board \<and> in_bounds flagged_board 1 1 \<and> state_of flagged_board 1 1 = FLAGGED
   \<and> in_bounds flagged_board 0 0
   \<and> reveal 4 flagged_board 0 0 =
       Some (Inr (flagged_board\<lparr>cell_states := [[REVEALED, REVEALED], [REVEALED, FLAGGED]]\<rparr>))
   \<and> state_of (flagged_board\<lparr>cell_states := [[REVEALED, REVEALED], [REVEALED, FLAGGED]]\<rparr>) 1 1 = FLAGGED
   \<and> flags_placed (flagged_board\<lparr>cell_states := [[REVEALED, REVEALED], [REVEALED, FLAGGED]]\<rparr>)
       = flags_placed flagged_board
   \<and> (snd ((40::int), (40::int)) - 0) div cell_size flagged_board = 1
   \<and> (fst ((40::int), (40::int)) - 0) div cell_size flagged_board = 1
   \<and> handle_click 4 [] 0 0 flagged_board (40, 40) 1 =
       Some (Inr (flagged_board\<lparr>mines := 0, first_click := False\<rparr>))
   \<and> state_of (flagged_board\<lparr>mines := 0, first_click := False\<rparr>) 1 1 = FLAGGED
   \<and> cell_states (flagged_board\<lparr>mines := 0, first_click := False\<rparr>) = cell_states flagged_board"
proof -
  have h: "wf_board flagged_board" "in_bounds flagged_board 1 1" "state_of flagged_board 1 1 = FLAGGED"
    by (simp_all add: flagged_board_def eval_defs state_of_def)
  have inb: "in_bounds flagged_board 0 0"
    by (simp add: flagged_board_def eval_defs)
  have ne: "((0::int), (0::int)) \<noteq> (1, 1)" by simp
  have run: "reveal 4 flagged_board 0 0 =
       Some (Inr (flagged_board\<lparr>cell_states := [[REVEALED, REVEALED], [REVEALED, FLAGGED]]\<rparr>))"
    by (simp add: flagged_board_def eval_defs offsets_eval eval_nat_numeral)
  have pos: "(snd ((40::int), (40::int)) - 0) div cell_size flagged_board = 1"
    "(fst ((40::int), (40::int)) - 0) div cell_size flagged_board = 1"
    by (simp_all add: flagged_board_def eval_defs)
  have sz: "safe_zone flagged_board 1 1 = {(0, 0), (0, 1), (1, 0), (1, 1)}"
    by (auto simp: safe_zone_def offsets_eval flagged_board_def Board_init_def in_bounds_def)
  have pm: "place_mines flagged_board 1 1 [] = Some (Inr (flagged_board\<lparr>mines := 0\<rparr>))"
    unfolding place_mines_def Let_def safe_zone_clear sz
    by (simp add: flagged_board_def eval_defs)
  have ca: "calculate_adjacent_mines (flagged_board\<lparr>mines := 0\<rparr>) = Inr (flagged_board\<lparr>mines := 0\<rparr>)"
    by (simp add: calculate_adjacent_mines_def calculate_cell_def count_step_def
        flagged_board_def eval_defs offsets_eval)
  have lc: "left_click 4 [] flagged_board 1 1 = Some (Inr (flagged_board\<lparr>mines := 0, first_click := False\<rparr>))"
    unfolding left_click_def pm
    by (simp add: ca) (simp add: flagged_board_def eval_defs)
  have cw: "check_win (flagged_board\<lparr>mines := 0, first_click := False\<rparr>)
      = Inr (flagged_board\<lparr>mines := 0, first_click := False\<rparr>)"
    by (simp add: check_win_def count_revealed_cell_def flagged_board_def eval_defs)
  have click: "handle_click 4 [] 0 0 flagged_board (40, 40) 1 =
       Some (Inr (flagged_board\<lparr>mines := 0, first_click := False\<rparr>))"
    unfolding handle_click_def Let_def
    using pos lc cw by (simp add: flagged_board_def Board_init_def in_bounds_def CELL_SIZE_def GRID_ROWS_def GRID_COLS_def)
  from flagged_cell_stays [OF h] inb ne run
  have 1: "state_of (flagged_board\<lparr>cell_states := [[REVEALED, REVEALED], [REVEALED, FLAGGED]]\<rparr>) 1 1 = FLAGGED
     \<and> flags_placed (flagged_board\<lparr>cell_states := [[REVEALED, REVEALED], [REVEALED, FLAGGED]]\<rparr>)
       = flags_placed flagged_board"
    by blast
  from flagged_cell_stays [OF h] pos click
  have 2: "state_of (flagged_board\<lparr>mines := 0, first_click := False\<rparr>) 1 1 = FLAGGED
     \<and> (\<not> game_won (flagged_board\<lparr>mines := 0, first_click := False\<rparr>) \<longrightarrow>
          cell_states (flagged_board\<lparr>mines := 0, first_click := False\<rparr>) = cell_states flagged_board
          \<and> flags_placed (flagged_board\<lparr>mines := 0, first_click := False\<rparr>) = flags_placed flagged_board)"
    by blast
  have ngw: "\<not> game_won (flagged_board\<lparr>mines := 0, first_click := False\<rparr>)"
    by (simp add: flagged_board_def Board_init_def)
  from h inb run 1 pos click 2 ngw show ?thesis by blast
qed

text \<open>
  C3 as stated fails for a direct call: \<open>reveal\<close> on the flagged cell \<open>(1, 1)\<close> sets it \<open>REVEALED\<close>
  and, as no mines are placed yet, cascades over the whole board; \<open>flags_placed\<close> stays 1.
\<close>

theorem reveal_on_flagged_counterexample:
  "state_of flagged_board 1 1 = FLAGGED
   \<and> reveal 4 flagged_board 1 1 =
       Some (Inr (flagged_board\<lparr>cell_states := [[REVEALED, REVEALED], [REVEALED, REVEALED]]\<rparr>))"
  by (simp add: flagged_board_def eval_defs offsets_eval eval_nat_numeral state_of_def)

section \<open>The cascade\<close>

lemma offsets_neighbours8:
  assumes "(i, j) \<in> set offsets" "\<not> (i = 0 \<and> j = 0)"
  shows "(r + i, c + j) \<in> set (neighbours8 r c)"
proof -
  from assms have "(i, j) \<in> set (filter (\<lambda>(i, j). \<not> (i = 0 \<and> j = 0)) offsets)" by simp
  then have "(\<lambda>(i, j). (r + i, c + j)) (i, j)
      \<in> (\<lambda>(i, j). (r + i, c + j)) ` set (filter (\<lambda>(i, j). \<not> (i = 0 \<and> j = 0)) offsets)"
    by (rule imageI)
  then show ?thesis by (simp add: neighbours8_offsets)
qed

lemma neighbours8_offsets_ex:
  assumes "(nr, nc) \<in> set (neighbours8 r c)"
  shows "\<exists>i j. (i, j) \<in> set offsets \<and> \<not> (i = 0 \<and> j = 0) \<and> nr = r + i \<and> nc = c + j"
  using assms unfolding neighbours8_offsets by auto

lemma counts_ok_zero_safe:
  assumes "counts_ok b"
  shows "zero_safe b"
  unfolding zero_safe_def
proof (intro allI impI)
  fix r c nr nc
  assume a: "in_bounds b r c \<and> cell_at (grid b) r c = 0 \<and> (nr, nc) \<in> set (neighbours8 r c) \<and>
        in_bounds b nr nc"
  then have "(r, c) \<in> set (all_cells b)" by (simp add: set_all_cells)
  with assms have "is_mine b r c \<or> cell_at (grid b) r c = int (adjacent_mines b r c)"
    by (auto simp: counts_ok_def list_all_iff)
  moreover from a have "\<not> is_mine b r c" by (simp add: is_mine_def MINE_VALUE_def)
  ultimately have "adjacent_mines b r c = 0" using a by simp
  then have "filter (\<lambda>(nr, nc). in_bounds b nr nc \<and> is_mine b nr nc) (neighbours8 r c) = []"
    by (simp add: adjacent_mines_def)
  then have "\<forall>x \<in> set (neighbours8 r c). \<not> (case x of (nr, nc) \<Rightarrow> in_bounds b nr nc \<and> is_mine b nr nc)"
    by (simp add: filter_empty_conv)
  with a show "\<not> is_mine b nr nc" by auto
qed

lemma zero_safe_uncovers: "uncovers b t \<Longrightarrow> zero_safe b \<Longrightarrow> zero_safe t"
  by (simp add: zero_safe_def uncovers_in_bounds uncovers_is_mine uncovers_fields(3))

lemma uncovers_not_hidden:
  assumes "uncovers t t'" "in_bounds t r c" "state_of t r c \<noteq> HIDDEN"
  shows "state_of t' r c \<noteq> HIDDEN"
  using uncovers_state [OF assms(1,2)] assms(3) by auto

lemma uncovers_revealed:
  assumes "uncovers t t'" "in_bounds t r c" "state_of t r c = REVEALED"
  shows "state_of t' r c = REVEALED"
  using uncovers_state [OF assms(1,2)] assms(3) by auto

lemma closed_cells_trans:
  assumes at: "closed_cells a t" and tt': "closed_cells t t'"
    and u1: "uncovers a t" and u2: "uncovers t t'"
  shows "closed_cells a t'"
  unfolding closed_cells_def
proof (intro allI impI)
  fix r c nr nc
  assume h: "in_bounds a r c \<and> state_of a r c \<noteq> REVEALED \<and> state_of t' r c = REVEALED \<and>
        cell_at (grid a) r c = 0 \<and> (nr, nc) \<in> set (neighbours8 r c) \<and> in_bounds a nr nc"
  have inb: "in_bounds t r c" "in_bounds t nr nc"
    using h by (simp_all add: uncovers_in_bounds [OF u1])
  have g: "cell_at (grid t) r c = 0"
    using h by (simp add: uncovers_fields(3) [OF u1])
  show "state_of t' nr nc \<noteq> HIDDEN"
  proof (cases "state_of t r c = REVEALED")
    case True
    with at h have "state_of t nr nc \<noteq> HIDDEN"
      unfolding closed_cells_def by blast
    from uncovers_not_hidden [OF u2 inb(2) this] show ?thesis .
  next
    case False
    with tt' h inb g show ?thesis
      unfolding closed_cells_def by blast
  qed
qed

lemma reached_subset:
  assumes y: "reached b row col r0 c0" and g: "grid t = grid b"
    and ib: "\<And>r c. in_bounds t r c = in_bounds b r c"
    and h: "\<And>r c. in_bounds b r c \<Longrightarrow> state_of t r c = HIDDEN \<Longrightarrow>
        state_of b r c = HIDDEN \<or> reached b row col r c"
  shows "reached t r0 c0 r c \<Longrightarrow> reached b row col r c"
proof (induction rule: reached.induct)
  case start
  show ?case by (rule y)
next
  case (step r c nr nc)
  have inb: "in_bounds b nr nc" using step.hyps by (simp add: ib)
  have hid: "state_of t nr nc = HIDDEN" using step.hyps by simp
  have z: "cell_at (grid b) r c = 0" using step.hyps by (simp add: g)
  have nb: "(nr, nc) \<in> set (neighbours8 r c)" using step.hyps by simp
  from h [OF inb hid] show ?case
  proof
    assume "state_of b nr nc = HIDDEN"
    from reached.step [OF step.IH z nb inb this] show ?thesis .
  next
    assume "reached b row col nr nc"
    then show ?thesis .
  qed
qed

lemma visit_neighbours_prefix:
  assumes init: "J [] b"
    and skp: "\<And>ds i j t. J ds t \<Longrightarrow> (i, j) \<in> set os \<Longrightarrow>
        (i = 0 \<and> j = 0) \<or> \<not> in_bounds t (row + i) (col + j)
          \<or> (\<exists>s. getitem2 (cell_states t) (row + i) (col + j) = Inr s \<and> s \<noteq> HIDDEN) \<Longrightarrow>
        J (ds @ [(i, j)]) t"
    and cal: "\<And>ds i j t t'. J ds t \<Longrightarrow> (i, j) \<in> set os \<Longrightarrow> \<not> (i = 0 \<and> j = 0) \<Longrightarrow>
        in_bounds t (row + i) (col + j) \<Longrightarrow>
        getitem2 (cell_states t) (row + i) (col + j) = Inr HIDDEN \<Longrightarrow>
        rec t (row + i) (col + j) = Some (Inr t') \<Longrightarrow> J (ds @ [(i, j)]) t'"
    and run: "visit_neighbours rec row col os b = Some (Inr b')"
  shows "J os b'"
proof -
  have gen: "J ds t \<Longrightarrow> set zs \<subseteq> set os \<Longrightarrow> visit_neighbours rec row col zs t = Some (Inr b') \<Longrightarrow>
      J (ds @ zs) b'" for ds zs t
  proof (induction zs arbitrary: ds t)
    case Nil
    then show ?case by simp
  next
    case (Cons z zs)
    obtain i j where z: "z = (i, j)" by (cases z)
    have mem: "(i, j) \<in> set os" using Cons.prems(2) z by simp
    have sub: "set zs \<subseteq> set os" using Cons.prems(2) by simp
    from Cons.prems(3) [unfolded z] show ?case
    proof (cases rule: visit_neighbours_cases)
      case skip
      from skp [OF Cons.prems(1) mem skip(2)] have "J (ds @ [(i, j)]) t" .
      from Cons.IH [OF this sub skip(1)] show ?thesis by (simp add: z)
    next
      case (call b1)
      from cal [OF Cons.prems(1) mem call(1,2,3,4)] have "J (ds @ [(i, j)]) b1" .
      from Cons.IH [OF this sub call(5)] show ?thesis by (simp add: z)
    qed
  qed
  from gen [OF init subset_refl run] show ?thesis by simp
qed

lemma reveal_spread:
  "wf_board b \<Longrightarrow> zero_safe b \<Longrightarrow> \<not> game_over b \<Longrightarrow> in_bounds b row col \<Longrightarrow>
   \<not> is_mine b row col \<Longrightarrow> state_of b row col = HIDDEN \<Longrightarrow>
   reveal depth b row col = Some (Inr b') \<Longrightarrow>
   \<not> game_over b' \<and> state_of b' row col = REVEALED \<and>
   (\<forall>r c. in_bounds b r c \<longrightarrow> state_of b' r c \<noteq> state_of b r c \<longrightarrow> reached b row col r c) \<and>
   closed_cells b b'"
proof (induction depth arbitrary: b row col b')
  case 0
  then show ?case by simp
next
  case (Suc depth)
  note wf = Suc.prems(1) and zs = Suc.prems(2) and ng = Suc.prems(3) and inb = Suc.prems(4)
    and nm = Suc.prems(5) and hid = Suc.prems(6) and run = Suc.prems(7)
  let ?b1 = "b\<lparr>cell_states := cell_upd (cell_states b) row col REVEALED\<rparr>"
  let ?v = "cell_at (grid b) row col"
  have sh: "shape (cell_states b) (rows b) (cols b)"
    using wf by (simp add: wf_board_def)
  have rng: "0 \<le> row" "row < rows b" "0 \<le> col" "col < cols b"
    using inb by (simp_all add: in_bounds_def)
  have u1: "uncovers b ?b1"
    by (rule uncovers_set_cell [OF wf inb hid])
  have wf1: "wf_board ?b1"
    by (rule uncovers_wf [OF wf u1])
  have st1: "state_of ?b1 r c = (if r = row \<and> c = col then REVEALED else state_of b r c)"
    if "in_bounds b r c" for r c
    using cell_at_cell_upd [OF sh rng, of r c REVEALED] that
    by (simp add: state_of_def in_bounds_def)
  have body: "(if ?v = 0 then visit_neighbours (reveal depth) row col offsets ?b1
       else Some (Inr ?b1)) = Some (Inr b')"
    using run ng hid nm wf_board_bounds [OF wf inb]
    by (simp add: state_of_def is_mine_def Let_def)
  show ?case
  proof (cases "?v = 0")
    case False
    with body have b': "b' = ?b1" by simp
    have 1: "\<not> game_over ?b1" using ng by simp
    have 2: "state_of ?b1 row col = REVEALED" using st1 [OF inb] by simp
    have 3: "\<forall>r c. in_bounds b r c \<longrightarrow> state_of ?b1 r c \<noteq> state_of b r c \<longrightarrow> reached b row col r c"
      using st1 by (auto intro: reached.start split: if_splits)
    have 4: "closed_cells b ?b1"
      unfolding closed_cells_def using st1 False by (auto split: if_splits)
    from 1 2 3 4 show ?thesis unfolding b' by blast
  next
    case zero: True
    with body have vis: "visit_neighbours (reveal depth) row col offsets ?b1 = Some (Inr b')"
      by simp
    define J where "J ds t \<longleftrightarrow>
      uncovers ?b1 t \<and> \<not> game_over t \<and>
      (\<forall>r c. in_bounds b r c \<longrightarrow> state_of t r c \<noteq> state_of ?b1 r c \<longrightarrow> reached b row col r c) \<and>
      closed_cells ?b1 t \<and>
      (\<forall>i j. (i, j) \<in> set ds \<and> \<not> (i = 0 \<and> j = 0) \<and> in_bounds b (row + i) (col + j) \<longrightarrow>
         state_of t (row + i) (col + j) \<noteq> HIDDEN)" for ds t
    have inb1: "in_bounds ?b1 r c = in_bounds b r c" for r c
      by (simp add: in_bounds_def)
    have "J offsets b'"
    proof (rule visit_neighbours_prefix [where J = J and rec = "reveal depth", OF _ _ _ vis])
      show "J [] ?b1"
      proof -
        have "closed_cells ?b1 ?b1"
          unfolding closed_cells_def by blast
        with uncovers_refl [OF wf1] ng show ?thesis
          unfolding J_def by simp
      qed
    next
      fix ds i j t
      assume J: "J ds t" and mem: "(i, j) \<in> set offsets"
        and sk: "(i = 0 \<and> j = 0) \<or> \<not> in_bounds t (row + i) (col + j)
          \<or> (\<exists>s. getitem2 (cell_states t) (row + i) (col + j) = Inr s \<and> s \<noteq> HIDDEN)"
      from J have u: "uncovers ?b1 t" by (simp add: J_def)
      have wft: "wf_board t" by (rule uncovers_wf [OF wf1 u])
      have inbt: "in_bounds t r c = in_bounds b r c" for r c
        using uncovers_in_bounds [OF u] by (simp add: inb1)
      have new: "state_of t (row + i) (col + j) \<noteq> HIDDEN"
        if "\<not> (i = 0 \<and> j = 0)" "in_bounds b (row + i) (col + j)"
      proof -
        from that(2) have it: "in_bounds t (row + i) (col + j)" by (simp add: inbt)
        with sk that(1) obtain s where "getitem2 (cell_states t) (row + i) (col + j) = Inr s"
          "s \<noteq> HIDDEN" by blast
        with wf_board_bounds(1) [OF wft it] show ?thesis by (simp add: state_of_def)
      qed
      show "J (ds @ [(i, j)]) t"
        using J new unfolding J_def by auto
    next
      fix ds i j t t'
      assume J: "J ds t" and mem: "(i, j) \<in> set offsets" and nz: "\<not> (i = 0 \<and> j = 0)"
        and it: "in_bounds t (row + i) (col + j)"
        and gh: "getitem2 (cell_states t) (row + i) (col + j) = Inr HIDDEN"
        and rr: "reveal depth t (row + i) (col + j) = Some (Inr t')"
      from J have u: "uncovers ?b1 t" and ngt: "\<not> game_over t"
        and snd: "\<And>r c. in_bounds b r c \<Longrightarrow> state_of t r c \<noteq> state_of ?b1 r c \<Longrightarrow> reached b row col r c"
        and cl: "closed_cells ?b1 t"
        and pr: "\<And>i j. (i, j) \<in> set ds \<Longrightarrow> \<not> (i = 0 \<and> j = 0) \<Longrightarrow> in_bounds b (row + i) (col + j) \<Longrightarrow>
           state_of t (row + i) (col + j) \<noteq> HIDDEN"
        by (simp_all add: J_def)
      have ubt: "uncovers b t" using u1 u by (rule uncovers_trans)
      have wft: "wf_board t" by (rule uncovers_wf [OF wf ubt])
      have inbt: "in_bounds t r c = in_bounds b r c" for r c
        by (rule uncovers_in_bounds [OF ubt])
      have iy: "in_bounds b (row + i) (col + j)" using it by (simp add: inbt)
      have hy: "state_of t (row + i) (col + j) = HIDDEN"
        using wf_board_bounds(1) [OF wft it] gh by (simp add: state_of_def)
      have ney: "\<not> (row + i = row \<and> col + j = col)" using nz by simp
      have nby: "(row + i, col + j) \<in> set (neighbours8 row col)"
        by (rule offsets_neighbours8 [OF mem nz])
      have "\<not> is_mine b (row + i) (col + j)"
        using zs inb zero nby iy unfolding zero_safe_def by blast
      then have nmy: "\<not> is_mine t (row + i) (col + j)"
        by (simp add: uncovers_is_mine [OF ubt])
      have hb1: "state_of ?b1 (row + i) (col + j) = HIDDEN"
        using uncovers_state [OF u, of "row + i" "col + j"] iy hy by (auto simp: inb1)
      then have hb: "state_of b (row + i) (col + j) = HIDDEN"
        using st1 [OF iy] nz by (auto split: if_splits)
      have ry: "reached b row col (row + i) (col + j)"
        by (rule reached.step [OF reached.start zero nby iy hb])
      from Suc.IH [OF wft zero_safe_uncovers [OF ubt zs] ngt it nmy hy rr]
      have ngt': "\<not> game_over t'" and rev: "state_of t' (row + i) (col + j) = REVEALED"
        and snd': "\<And>r c. in_bounds t r c \<Longrightarrow> state_of t' r c \<noteq> state_of t r c \<Longrightarrow>
            reached t (row + i) (col + j) r c"
        and cl': "closed_cells t t'"
        by simp_all
      from reveal_uncovers [OF wft it _ rr] hy have utt': "uncovers t t'" by simp
      have u': "uncovers ?b1 t'" using u utt' by (rule uncovers_trans)
      have hback: "state_of b r c = HIDDEN \<or> reached b row col r c"
        if "in_bounds b r c" "state_of t r c = HIDDEN" for r c
      proof -
        from uncovers_state [OF u, of r c] that have "state_of ?b1 r c = HIDDEN"
          by (auto simp: inb1)
        with st1 [OF that(1)] show ?thesis by (auto split: if_splits)
      qed
      have sub: "reached b row col r c" if "reached t (row + i) (col + j) r c" for r c
        using ry uncovers_fields(3) [OF ubt] inbt hback that by (rule reached_subset)
      have s3: "reached b row col r c"
        if "in_bounds b r c" "state_of t' r c \<noteq> state_of ?b1 r c" for r c
      proof (cases "state_of t r c = state_of ?b1 r c")
        case True
        with that(2) have "state_of t' r c \<noteq> state_of t r c" by simp
        from snd' [OF _ this] that(1) have "reached t (row + i) (col + j) r c" by (simp add: inbt)
        then show ?thesis by (rule sub)
      next
        case False
        from snd [OF that(1) False] show ?thesis .
      qed
      have c3: "closed_cells ?b1 t'"
        using cl cl' u utt' by (rule closed_cells_trans)
      have p3: "state_of t' (row + i') (col + j') \<noteq> HIDDEN"
        if "(i', j') \<in> set (ds @ [(i, j)])" "\<not> (i' = 0 \<and> j' = 0)" "in_bounds b (row + i') (col + j')"
        for i' j'
      proof (cases "(i', j') = (i, j)")
        case True
        with rev show ?thesis by simp
      next
        case False
        with that(1) have "(i', j') \<in> set ds" by auto
        from pr [OF this that(2,3)] have nh: "state_of t (row + i') (col + j') \<noteq> HIDDEN" .
        from that(3) have "in_bounds t (row + i') (col + j')" by (simp add: inbt)
        from uncovers_not_hidden [OF utt' this nh] show ?thesis .
      qed
      show "J (ds @ [(i, j)]) t'"
        unfolding J_def using u' ngt' s3 c3 p3 by blast
    qed
    then have u: "uncovers ?b1 b'" and ngb': "\<not> game_over b'"
      and snd: "\<And>r c. in_bounds b r c \<Longrightarrow> state_of b' r c \<noteq> state_of ?b1 r c \<Longrightarrow> reached b row col r c"
      and cl: "closed_cells ?b1 b'"
      and pr: "\<And>i j. (i, j) \<in> set offsets \<Longrightarrow> \<not> (i = 0 \<and> j = 0) \<Longrightarrow> in_bounds b (row + i) (col + j) \<Longrightarrow>
           state_of b' (row + i) (col + j) \<noteq> HIDDEN"
      by (simp_all add: J_def)
    have 2: "state_of b' row col = REVEALED"
      using uncovers_revealed [OF u, of row col] st1 [OF inb] inb by (simp add: inb1)
    have 3: "reached b row col r c" if "in_bounds b r c" "state_of b' r c \<noteq> state_of b r c" for r c
    proof (cases "r = row \<and> c = col")
      case True
      then show ?thesis by (simp add: reached.start)
    next
      case False
      with st1 [OF that(1)] that(2) have "state_of b' r c \<noteq> state_of ?b1 r c" by simp
      from snd [OF that(1) this] show ?thesis .
    qed
    have 4: "closed_cells b b'"
      unfolding closed_cells_def
    proof (intro allI impI)
      fix r c nr nc
      assume h: "in_bounds b r c \<and> state_of b r c \<noteq> REVEALED \<and> state_of b' r c = REVEALED \<and>
        cell_at (grid b) r c = 0 \<and> (nr, nc) \<in> set (neighbours8 r c) \<and> in_bounds b nr nc"
      show "state_of b' nr nc \<noteq> HIDDEN"
      proof (cases "r = row \<and> c = col")
        case True
        from h neighbours8_offsets_ex [of nr nc r c]
        obtain i j where ij: "(i, j) \<in> set offsets" "\<not> (i = 0 \<and> j = 0)" "nr = r + i" "nc = c + j"
          by blast
        from pr [OF ij(1,2)] h ij(3,4) True show ?thesis by simp
      next
        case False
        have "state_of ?b1 r c \<noteq> REVEALED"
          using st1 [of r c] h False by simp
        with h have "in_bounds ?b1 r c \<and> state_of ?b1 r c \<noteq> REVEALED \<and> state_of b' r c = REVEALED \<and>
          cell_at (grid ?b1) r c = 0 \<and> (nr, nc) \<in> set (neighbours8 r c) \<and> in_bounds ?b1 nr nc"
          by (simp add: inb1)
        with cl show ?thesis
          unfolding closed_cells_def by blast
      qed
    qed
    from ngb' 2 3 4 show ?thesis by blast
  qed
qed


lemma reached_revealed:
  assumes u: "uncovers b b'" and cl: "closed_cells b b'" and inb: "in_bounds b row col"
    and nrev: "state_of b row col \<noteq> REVEALED" and rev: "state_of b' row col = REVEALED"
  shows "reached b row col r c \<Longrightarrow>
    in_bounds b r c \<and> state_of b r c \<noteq> REVEALED \<and> state_of b' r c = REVEALED"
proof (induction rule: reached.induct)
  case start
  show ?case using inb nrev rev by simp
next
  case (step r c nr nc)
  have h: "in_bounds b nr nc" "state_of b nr nc = HIDDEN" "cell_at (grid b) r c = 0"
    "(nr, nc) \<in> set (neighbours8 r c)"
    using step.hyps by simp_all
  from cl step.IH h have "state_of b' nr nc \<noteq> HIDDEN"
    unfolding closed_cells_def by blast
  with uncovers_state [OF u h(1)] h(1,2) show ?case by auto
qed

text \<open>
  C4: on a well-formed board whose counts are those of its mines, in a game that is not over,
  \<open>reveal\<close> on a cell of the grid that holds no mine and is not \<open>REVEALED\<close>, with a recursion
  budget of \<open>rows * cols\<close> frames, returns the board with other cell states and nothing else
  changed. The cells that are \<open>REVEALED\<close> afterwards are those that were before and those
  \<open>reached\<close> from the target: the target, and every cell reached from it by steps to one of
  the eight neighbours, each leaving a cell with count 0 and entering a \<open>HIDDEN\<close> cell. So a
  cell with a positive count is revealed and not expanded, and a cell that is \<open>FLAGGED\<close> or
  already \<open>REVEALED\<close> keeps its state and is not passed through. Every other cell keeps its
  state.
\<close>

theorem reveal_cascade:
  assumes wf: "wf_board b" and co: "counts_ok b" and ng: "\<not> game_over b"
    and inb: "in_bounds b row col" and nm: "\<not> is_mine b row col"
    and nrev: "state_of b row col \<noteq> REVEALED" and dp: "rows b * cols b \<le> int depth"
  shows "\<exists>cs. reveal depth b row col = Some (Inr (b\<lparr>cell_states := cs\<rparr>))
     \<and> shape cs (rows b) (cols b)
     \<and> (\<forall>r c. in_bounds b r c \<longrightarrow>
          cell_at cs r c = (if reached b row col r c then REVEALED else state_of b r c))"
proof -
  let ?b0 = "b\<lparr>cell_states := cell_upd (cell_states b) row col HIDDEN\<rparr>"
  have sh: "shape (cell_states b) (rows b) (cols b)"
    using wf by (simp add: wf_board_def)
  have rng: "0 \<le> row" "row < rows b" "0 \<le> col" "col < cols b"
    using inb by (simp_all add: in_bounds_def)
  have wf0: "wf_board ?b0"
    using wf by (simp add: wf_board_def shape_cell_upd)
  have inb0: "in_bounds ?b0 r c = in_bounds b r c" for r c
    by (simp add: in_bounds_def)
  have st0: "state_of ?b0 r c = (if r = row \<and> c = col then HIDDEN else state_of b r c)"
    if "in_bounds b r c" for r c
    using cell_at_cell_upd [OF sh rng, of r c HIDDEN] that
    by (simp add: state_of_def in_bounds_def)
  have zs0: "zero_safe ?b0"
    using counts_ok_zero_safe [OF co] by (simp add: zero_safe_def in_bounds_def is_mine_def)
  have nm0: "\<not> is_mine ?b0 row col" using nm by (simp add: is_mine_def)
  have ng0: "\<not> game_over ?b0" using ng by simp
  have i0: "in_bounds ?b0 row col" using inb by (simp add: inb0)
  have h0: "state_of ?b0 row col = HIDDEN" using st0 [OF inb] by simp
  have "0 < rows b" "0 < cols b" using rng by simp_all
  then have "0 < rows b * cols b" by (simp add: zero_less_mult_iff)
  with dp have dpos: "0 < depth" by simp
  have "unrevealed ?b0 \<le> depth" using unrevealed_le [OF wf0] dp by simp
  from reveal_total [OF dpos this]
  obtain res where res: "reveal depth ?b0 row col = Some res" by blast
  from reveal_uncovers [OF wf0 i0 _ res] h0
  obtain b' where b': "res = Inr b'" and u: "uncovers ?b0 b'" by auto
  from res b' have run0: "reveal depth ?b0 row col = Some (Inr b')" by simp
  from reveal_spread [OF wf0 zs0 ng0 i0 nm0 h0 run0]
  have ngb': "\<not> game_over b'" and rev: "state_of b' row col = REVEALED"
    and snd: "\<And>r c. in_bounds ?b0 r c \<Longrightarrow> state_of b' r c \<noteq> state_of ?b0 r c \<Longrightarrow>
        reached ?b0 row col r c"
    and cl: "closed_cells ?b0 b'"
    by simp_all
  have run: "reveal depth b row col = Some (Inr b')"
    using reveal_from_hidden [OF wf inb ng nrev] run0 by simp
  define cs where "cs = cell_states b'"
  have e: "b' = ?b0\<lparr>cell_states := cs, game_over := game_over b'\<rparr>"
    using uncovers_fields(11) [OF u] by (simp add: cs_def)
  have b'eq: "b' = b\<lparr>cell_states := cs\<rparr>"
    by (subst e, rule board.equality) (simp_all add: ngb' ng)
  have shc: "shape cs (rows b) (cols b)"
    using uncovers_fields(10) [OF u] by (simp add: cs_def)
  have r1: "reached b row col r c" if "reached ?b0 row col r c" for r c
  proof -
    have y: "reached b row col row col" by (rule reached.start)
    have g: "grid ?b0 = grid b" by simp
    have hh: "state_of b r c = HIDDEN \<or> reached b row col r c"
      if "in_bounds b r c" "state_of ?b0 r c = HIDDEN" for r c
      using st0 [OF that(1)] that(2) by (auto intro: reached.start split: if_splits)
    from y g inb0 hh that show ?thesis by (rule reached_subset)
  qed
  have r2: "reached ?b0 row col r c" if "reached b row col r c" for r c
  proof -
    have y: "reached ?b0 row col row col" by (rule reached.start)
    have g: "grid b = grid ?b0" by simp
    have ib: "in_bounds b r c = in_bounds ?b0 r c" for r c by (simp add: inb0)
    have hh: "state_of ?b0 r c = HIDDEN \<or> reached ?b0 row col r c"
      if "in_bounds ?b0 r c" "state_of b r c = HIDDEN" for r c
      using st0 [of r c] that by (auto simp: inb0 split: if_splits)
    from y g ib hh that show ?thesis by (rule reached_subset)
  qed
  have cells: "cell_at cs r c = (if reached b row col r c then REVEALED else state_of b r c)"
    if ib: "in_bounds b r c" for r c
  proof (cases "reached b row col r c")
    case True
    from reached_revealed [OF u cl i0 _ rev r2 [OF True]] h0
    have "state_of b' r c = REVEALED" by simp
    with True show ?thesis by (simp add: cs_def state_of_def)
  next
    case False
    then have ne: "\<not> (r = row \<and> c = col)" by (auto intro: reached.start)
    from False r1 have "\<not> reached ?b0 row col r c" by blast
    with snd [of r c] ib have "state_of b' r c = state_of ?b0 r c" by (auto simp: inb0)
    with st0 [OF ib] ne False show ?thesis by (simp add: cs_def state_of_def)
  qed
  from run b'eq have "reveal depth b row col = Some (Inr (b\<lparr>cell_states := cs\<rparr>))" by simp
  with shc cells show ?thesis by blast
qed

theorem reveal_cascade_witness:
  "wf_board open_board \<and> counts_ok open_board \<and> \<not> game_over open_board
   \<and> in_bounds open_board 0 0 \<and> \<not> is_mine open_board 0 0
   \<and> state_of open_board 0 0 \<noteq> REVEALED \<and> rows open_board * cols open_board \<le> int 4
   \<and> (\<exists>cs. reveal 4 open_board 0 0 = Some (Inr (open_board\<lparr>cell_states := cs\<rparr>))
     \<and> shape cs (rows open_board) (cols open_board)
     \<and> (\<forall>r c. in_bounds open_board r c \<longrightarrow>
          cell_at cs r c = (if reached open_board 0 0 r c then REVEALED else state_of open_board r c)))
   \<and> reveal 4 open_board 0 0 =
       Some (Inr (open_board\<lparr>cell_states := [[REVEALED, REVEALED, HIDDEN, HIDDEN]]\<rparr>))
   \<and> reached open_board 0 0 0 0 \<and> reached open_board 0 0 0 1
   \<and> \<not> reached open_board 0 0 0 2 \<and> \<not> reached open_board 0 0 0 3"
proof -
  have h: "wf_board open_board" "counts_ok open_board" "\<not> game_over open_board"
    "in_bounds open_board 0 0" "\<not> is_mine open_board 0 0"
    "state_of open_board 0 0 \<noteq> REVEALED" "rows open_board * cols open_board \<le> int 4"
    by (simp_all add: open_board_def counts_ok_def is_mine_def adjacent_mines_def
        neighbours8_def state_of_def eval_defs)
  have run: "reveal 4 open_board 0 0 =
       Some (Inr (open_board\<lparr>cell_states := [[REVEALED, REVEALED, HIDDEN, HIDDEN]]\<rparr>))"
    by (simp add: open_board_def eval_defs offsets_eval eval_nat_numeral)
  from reveal_cascade [OF h]
  obtain cs where cs: "reveal 4 open_board 0 0 = Some (Inr (open_board\<lparr>cell_states := cs\<rparr>))"
    and at: "\<And>r c. in_bounds open_board r c \<Longrightarrow>
          cell_at cs r c = (if reached open_board 0 0 r c then REVEALED else state_of open_board r c)"
    by blast
  from cs run have "cell_states (open_board\<lparr>cell_states := cs\<rparr>)
      = cell_states (open_board\<lparr>cell_states := [[REVEALED, REVEALED, HIDDEN, HIDDEN]]\<rparr>)"
    by simp
  then have cs_eq: "cs = [[REVEALED, REVEALED, HIDDEN, HIDDEN]]" by simp
  have ib: "in_bounds open_board 0 0" "in_bounds open_board 0 1" "in_bounds open_board 0 2"
    "in_bounds open_board 0 3"
    by (simp_all add: open_board_def in_bounds_def)
  have r0: "reached open_board 0 0 0 0"
    by (rule reached.start)
  have r1: "reached open_board 0 0 0 1"
    using at [OF ib(2)] by (simp add: cs_eq cell_at_def open_board_def state_of_def split: if_splits)
  have r2: "\<not> reached open_board 0 0 0 2"
    using at [OF ib(3)] by (simp add: cs_eq cell_at_def split: if_splits)
  have r3: "\<not> reached open_board 0 0 0 3"
    using at [OF ib(4)] by (simp add: cs_eq cell_at_def split: if_splits)
  from reveal_cascade [OF h] h run r0 r1 r2 r3 show ?thesis by blast
qed

text \<open>
  C4 as stated fails when a flagged cell lies inside the region: on the row of five cells
  with counts \<open>0 0 0 1\<close> and the mine last, the cells \<open>(0, 0)\<close>, \<open>(0, 1)\<close>, \<open>(0, 2)\<close> form one
  contiguous region of count 0. With \<open>(0, 1)\<close> flagged, \<open>reveal\<close> on \<open>(0, 0)\<close> reveals that cell
  only: the \<open>HIDDEN\<close> cell \<open>(0, 2)\<close> of the region and the bordering cell \<open>(0, 3)\<close> with count 1
  stay \<open>HIDDEN\<close>. The same happens in play: flag \<open>(0, 1)\<close> on a new board, then left click
  \<open>(0, 0)\<close>, the mine falling on \<open>(0, 4)\<close>.
\<close>

theorem reveal_blocked_counterexample:
  "wf_board blocked_board \<and> counts_ok blocked_board \<and> \<not> game_over blocked_board
   \<and> cell_at (grid blocked_board) 0 0 = 0 \<and> cell_at (grid blocked_board) 0 1 = 0
   \<and> cell_at (grid blocked_board) 0 2 = 0 \<and> cell_at (grid blocked_board) 0 3 = 1
   \<and> (0, 1) \<in> set (neighbours8 0 0) \<and> (0, 2) \<in> set (neighbours8 0 1)
   \<and> (0, 3) \<in> set (neighbours8 0 2)
   \<and> state_of blocked_board 0 0 = HIDDEN \<and> state_of blocked_board 0 2 = HIDDEN
   \<and> state_of blocked_board 0 3 = HIDDEN
   \<and> reveal 5 blocked_board 0 0 =
       Some (Inr (blocked_board\<lparr>cell_states := [[REVEALED, FLAGGED, HIDDEN, HIDDEN, HIDDEN]]\<rparr>))
   \<and> state_of (blocked_board\<lparr>cell_states := [[REVEALED, FLAGGED, HIDDEN, HIDDEN, HIDDEN]]\<rparr>) 0 2
       = HIDDEN
   \<and> state_of (blocked_board\<lparr>cell_states := [[REVEALED, FLAGGED, HIDDEN, HIDDEN, HIDDEN]]\<rparr>) 0 3
       = HIDDEN
   \<and> toggle_flag (Board_init 1 5 1) 0 1 =
       Inr ((Board_init 1 5 1)\<lparr>cell_states := [[HIDDEN, FLAGGED, HIDDEN, HIDDEN, HIDDEN]],
              flags_placed := 1\<rparr>)
   \<and> handle_click 5 [(0, 4)] 0 0
       ((Board_init 1 5 1)\<lparr>cell_states := [[HIDDEN, FLAGGED, HIDDEN, HIDDEN, HIDDEN]],
            flags_placed := 1\<rparr>) ((0::int), (0::int)) 1 =
       Some (Inr (blocked_board\<lparr>cell_states := [[REVEALED, FLAGGED, HIDDEN, HIDDEN, HIDDEN]]\<rparr>))"
proof -
  let ?f = "(Board_init 1 5 1)\<lparr>cell_states := [[HIDDEN, FLAGGED, HIDDEN, HIDDEN, HIDDEN]],
            flags_placed := 1\<rparr>"
  let ?p = "?f\<lparr>mines_location := {(0, 4)}, grid := [[0, 0, 0, 0, -1]], mines := 1\<rparr>"
  have base: "wf_board blocked_board \<and> counts_ok blocked_board \<and> \<not> game_over blocked_board
   \<and> cell_at (grid blocked_board) 0 0 = 0 \<and> cell_at (grid blocked_board) 0 1 = 0
   \<and> cell_at (grid blocked_board) 0 2 = 0 \<and> cell_at (grid blocked_board) 0 3 = 1
   \<and> (0, 1) \<in> set (neighbours8 0 0) \<and> (0, 2) \<in> set (neighbours8 0 1)
   \<and> (0, 3) \<in> set (neighbours8 0 2)
   \<and> state_of blocked_board 0 0 = HIDDEN \<and> state_of blocked_board 0 2 = HIDDEN
   \<and> state_of blocked_board 0 3 = HIDDEN
   \<and> state_of (blocked_board\<lparr>cell_states := [[REVEALED, FLAGGED, HIDDEN, HIDDEN, HIDDEN]]\<rparr>) 0 2
       = HIDDEN
   \<and> state_of (blocked_board\<lparr>cell_states := [[REVEALED, FLAGGED, HIDDEN, HIDDEN, HIDDEN]]\<rparr>) 0 3
       = HIDDEN"
    by (simp add: blocked_board_def counts_ok_def is_mine_def adjacent_mines_def
        neighbours8_def state_of_def eval_defs)
  have rv: "reveal 5 blocked_board 0 0 =
       Some (Inr (blocked_board\<lparr>cell_states := [[REVEALED, FLAGGED, HIDDEN, HIDDEN, HIDDEN]]\<rparr>))"
    by (simp add: blocked_board_def eval_defs offsets_eval eval_nat_numeral)
  have tf: "toggle_flag (Board_init 1 5 1) 0 1 = Inr ?f"
    by (simp add: toggle_flag_def eval_defs)
  have sz: "safe_zone (?f\<lparr>mines_location := {}\<rparr>) 0 0 = {(0, 0), (0, 1)}"
    by (auto simp: safe_zone_def offsets_eval Board_init_def in_bounds_def)
  have pm: "place_mines ?f 0 0 [(0, 4)] = Some (Inr ?p)"
    unfolding place_mines_def Let_def sz
    by (simp add: eval_defs)
  have ca: "calculate_adjacent_mines ?p = Inr (?p\<lparr>grid := [[0, 0, 0, 1, -1]]\<rparr>)"
    by (simp add: calculate_adjacent_mines_def calculate_cell_def count_step_def
        eval_defs offsets_eval)
  have eq: "?p\<lparr>grid := [[0, 0, 0, 1, -1]], first_click := False\<rparr> = blocked_board"
    by (simp add: blocked_board_def eval_defs)
  have fc: "first_click ?f" by (simp add: Board_init_def)
  have lc: "left_click 5 [(0, 4)] ?f 0 0 =
      Some (Inr (blocked_board\<lparr>cell_states := [[REVEALED, FLAGGED, HIDDEN, HIDDEN, HIDDEN]]\<rparr>))"
    unfolding left_click_def pm
    by (simp add: fc ca eq) (use rv in \<open>simp add: blocked_board_def eval_defs\<close>)
  have cw: "check_win (blocked_board\<lparr>cell_states := [[REVEALED, FLAGGED, HIDDEN, HIDDEN, HIDDEN]]\<rparr>)
      = Inr (blocked_board\<lparr>cell_states := [[REVEALED, FLAGGED, HIDDEN, HIDDEN, HIDDEN]]\<rparr>)"
    by (simp add: check_win_def count_revealed_cell_def blocked_board_def eval_defs)
  have click: "handle_click 5 [(0, 4)] 0 0 ?f ((0::int), (0::int)) 1 =
     Some (Inr (blocked_board\<lparr>cell_states := [[REVEALED, FLAGGED, HIDDEN, HIDDEN, HIDDEN]]\<rparr>))"
    unfolding handle_click_def Let_def
    using lc cw
    by (simp add: blocked_board_def Board_init_def in_bounds_def CELL_SIZE_def GRID_ROWS_def
        GRID_COLS_def)
  from base rv tf click show ?thesis by blast
qed

end
